theory Spec2Isabelle
  imports Main "HOL-Library.Word" "HOL-Library.Sublist" "HOL-Library.AList"
begin

section \<open>Data model\<close>

text \<open>
  Slots are Go \<open>uint64\<close> values: arithmetic on them wraps modulo \<open>2 ^ 64\<close> and no slot
  is below zero. A hash is go-ethereum's \<open>common.Hash\<close>, 32 bytes; the zero value
  \<open>common.Hash{}\<close> is the word \<open>0\<close>. A Go \<open>error\<close> is its message, \<open>nil\<close> is \<open>None\<close>.
\<close>

type_synonym slot = "64 word"
type_synonym hash = "256 word"
type_synonym error = string

datatype Status = Pending | Verified | Invalid | Skipped

text \<open>\<open>types.HeaderHash\<close>: the record kept per slot and chain.\<close>

record HeaderHash =
  HeaderHash :: hash
  Status :: Status

text \<open>\<open>events.RealmPair\<close>; a nil pointer is \<open>None\<close>, the nil slice is \<open>[]\<close>.\<close>

record RealmPair =
  Slot :: slot
  VanguardHash :: "HeaderHash option"
  PandoraHashes :: "HeaderHash option list"

text \<open>\<open>databaseErrors\<close> (service.go, lines 19-23).\<close>

record databaseErrors =
  vanguardErr :: "error option"
  pandoraErr :: "error option"
  realmErr :: "error option"

text \<open>
  \<open>invalidationWorkPayload\<close> (service.go, lines 25-33). The two orphan maps
  \<open>map[uint64]*types.HeaderHash\<close> are association lists with distinct keys, updated with
  \<open>AList.update\<close>.
\<close>

record invalidationWorkPayload =
  invalidationStartRealmSlot :: slot
  fromSlot :: slot
  possibleSkippedPair :: "RealmPair option list"
  pandoraHashes :: "HeaderHash option list"
  vanguardHashes :: "HeaderHash option list"
  pandoraOrphans :: "(slot \<times> HeaderHash) list"
  vanguardOrphans :: "(slot \<times> HeaderHash) list"

section \<open>The database behind the three store interfaces\<close>

text \<open>
  The calls the engine makes on \<open>db.VanguardHeaderHashDB\<close>, \<open>db.PandoraHeaderHashDB\<close> and
  \<open>db.RealmDB\<close> that can return an error.
\<close>

datatype db_call =
    VanSave slot HeaderHash
  | PanSave slot HeaderHash
  | RealmSave slot
  | VanRange slot "64 word"
  | PanRange slot "64 word"

text \<open>
  Modelled from the spec: the package \<open>orchestrator/db\<close> (interfaces and the kv store) is
  not among the sources. Following sections 4.2 and 4.3 of the specification, a database
  holds one \<open>slot \<rightharpoonup> record\<close> store per chain and the scalar \<open>latestVerifiedSlot\<close>
  (field \<open>realm\<close>). Every operation "may fail with a storage error": \<open>faults\<close> decides,
  from the calls issued so far and the call at hand, whether the call fails and with which
  error; a failed call changes nothing but the log. \<open>calls\<close> logs every issued call,
  oldest first.
\<close>

record database =
  vanguardStore :: "slot \<rightharpoonup> HeaderHash"
  pandoraStore :: "slot \<rightharpoonup> HeaderHash"
  realm :: slot
  calls :: "db_call list"
  faults :: "db_call list \<Rightarrow> db_call \<Rightarrow> error option"

text \<open>
  What a call does to the database when it succeeds: \<open>Save(slot, record)\<close> is an upsert
  (section 4.2), the Realm's \<open>Save\<close> sets the value (section 4.3), a \<open>Range\<close> read
  changes nothing.
\<close>

fun effect :: "db_call \<Rightarrow> database \<Rightarrow> database" where
  "effect (VanSave s h) d = d\<lparr>vanguardStore := (vanguardStore d)(s \<mapsto> h)\<rparr>"
| "effect (PanSave s h) d = d\<lparr>pandoraStore := (pandoraStore d)(s \<mapsto> h)\<rparr>"
| "effect (RealmSave s) d = d\<lparr>realm := s\<rparr>"
| "effect (VanRange fromS limit) d = d"
| "effect (PanRange fromS limit) d = d"

text \<open>Issuing a call: it is logged, and it takes effect unless it fails.\<close>

definition perform :: "db_call \<Rightarrow> database \<Rightarrow> error option \<times> database" where
  "perform c d =
     (case faults d (calls d) c of
        Some e \<Rightarrow> (Some e, d\<lparr>calls := calls d @ [c]\<rparr>)
      | None \<Rightarrow> (None, (effect c d)\<lparr>calls := calls d @ [c]\<rparr>))"

text \<open>Modelled from the spec: the \<open>Save\<close> of each chain's store (section 4.2).\<close>

definition SaveVanguardHeaderHash :: "slot \<Rightarrow> HeaderHash \<Rightarrow> database \<Rightarrow> error option \<times> database" where
  "SaveVanguardHeaderHash s h d = perform (VanSave s h) d"

definition SavePandoraHeaderHash :: "slot \<Rightarrow> HeaderHash \<Rightarrow> database \<Rightarrow> error option \<times> database" where
  "SavePandoraHeaderHash s h d = perform (PanSave s h) d"

text \<open>Modelled from the spec: the Realm's \<open>Read\<close> and \<open>Save\<close> (section 4.3).\<close>

definition LatestVerifiedRealmSlot :: "database \<Rightarrow> slot" where
  "LatestVerifiedRealmSlot d = realm d"

definition SaveLatestVerifiedRealmSlot :: "slot \<Rightarrow> database \<Rightarrow> error option \<times> database" where
  "SaveLatestVerifiedRealmSlot s d = perform (RealmSave s) d"

text \<open>
  Modelled from the spec: \<open>Range(fromSlot, limit)\<close> "returns a dense array of length
  \<open>limit\<close>; positions corresponding to missing slots hold nil" (section 4.2). On an error
  the returned slice is nil.
\<close>

definition denseRange :: "(slot \<rightharpoonup> HeaderHash) \<Rightarrow> slot \<Rightarrow> 64 word \<Rightarrow> HeaderHash option list" where
  "denseRange store fromS limit = map (\<lambda>i. store (fromS + of_nat i)) [0..<unat limit]"

definition VanguardHeaderHashes :: "slot \<Rightarrow> 64 word \<Rightarrow> database \<Rightarrow> (HeaderHash option list \<times> error option) \<times> database" where
  "VanguardHeaderHashes fromS limit d =
     (case perform (VanRange fromS limit) d of
        (Some e, d') \<Rightarrow> (([], Some e), d')
      | (None, d') \<Rightarrow> ((denseRange (vanguardStore d) fromS limit, None), d'))"

definition PandoraHeaderHashes :: "slot \<Rightarrow> 64 word \<Rightarrow> database \<Rightarrow> (HeaderHash option list \<times> error option) \<times> database" where
  "PandoraHeaderHashes fromS limit d =
     (case perform (PanRange fromS limit) d of
        (Some e, d') \<Rightarrow> (([], Some e), d')
      | (None, d') \<Rightarrow> ((denseRange (pandoraStore d) fromS limit, None), d'))"

text \<open>
  Modelled from the spec: \<open>kv.EmptyHash\<close> is declared in the absent kv package; the
  specification calls the record written in the gap-fill step \<open>{empty-hash, Skipped}\<close>.
\<close>

definition EmptyHash :: hash where
  "EmptyHash = 0"

text \<open>A database on which no call ever fails.\<close>

definition noFaults :: "db_call list \<Rightarrow> db_call \<Rightarrow> error option" where
  "noFaults log c = None"

text \<open>
  Issuing a list of calls one after the other. Every step of the engine changes the
  database through such calls only, so the database after a step is the replay of the
  calls the step logged.
\<close>

definition replay :: "db_call list \<Rightarrow> database \<Rightarrow> database" where
  "replay cs d = fold (\<lambda>c d'. snd (perform c d')) cs d"

section \<open>The commit step: \<open>handlePreparedWork\<close>\<close>

text \<open>
  The state of one run of \<open>handlePreparedWork\<close> (service.go, lines 381-699): the database,
  the local copies of the payload's fields as the loops update them (\<open>work\<close>), and the
  three local error variables (\<open>errs\<close>).
\<close>

record work_state =
  db :: database
  work :: invalidationWorkPayload
  errs :: databaseErrors

text \<open>
  How a run ends. \<open>SendsErrors e\<close> is the statement pair \<open>errChan <- e; return\<close>;
  \<open>Returns\<close> is a plain \<open>return\<close> (or the end of the function); \<open>FatalExit\<close> is
  \<open>log.Fatal\<close>, which ends the process.
\<close>

datatype outcome = Returns | SendsErrors databaseErrors | FatalExit

definition anyErr :: "databaseErrors \<Rightarrow> bool" where
  "anyErr e = (vanguardErr e \<noteq> None \<or> pandoraErr e \<noteq> None \<or> realmErr e \<noteq> None)"

definition chainErr :: "databaseErrors \<Rightarrow> bool" where
  "chainErr e = (vanguardErr e \<noteq> None \<or> pandoraErr e \<noteq> None)"

text \<open>
  One iteration of the verification loop (lines 405-469) at slot \<open>slotToCheck\<close>, given
  the two entries at the current index. The boolean says whether the loop breaks.
\<close>

definition verifySlot :: "slot \<Rightarrow> HeaderHash option \<Rightarrow> HeaderHash option \<Rightarrow> work_state \<Rightarrow> bool \<times> work_state" where
  "verifySlot slotToCheck vanguardBlockHash pandoraHeaderHash st =
     (case (pandoraHeaderHash, vanguardBlockHash) of
        (None, None) \<Rightarrow>
          (False, st\<lparr>work := (work st)\<lparr>possibleSkippedPair :=
             possibleSkippedPair (work st) @
               [Some \<lparr>Slot = slotToCheck, VanguardHash = None, PandoraHashes = []\<rparr>]\<rparr>\<rparr>)
      | (None, Some v) \<Rightarrow>
          (False, st\<lparr>work := (work st)\<lparr>vanguardOrphans :=
             AList.update slotToCheck \<lparr>HeaderHash = HeaderHash v, Status = Pending\<rparr>
               (vanguardOrphans (work st))\<rparr>\<rparr>)
      | (Some p, None) \<Rightarrow>
          (False, st\<lparr>work := (work st)\<lparr>pandoraOrphans :=
             AList.update slotToCheck \<lparr>HeaderHash = HeaderHash p, Status = Pending\<rparr>
               (pandoraOrphans (work st))\<rparr>\<rparr>)
      | (Some p, Some v) \<Rightarrow>
          (case SaveVanguardHeaderHash slotToCheck
                  \<lparr>HeaderHash = HeaderHash v, Status = Verified\<rparr> (db st) of
             (verr, d1) \<Rightarrow>
               (case SavePandoraHeaderHash slotToCheck
                       \<lparr>HeaderHash = HeaderHash p, Status = Verified\<rparr> d1 of
                  (perr, d2) \<Rightarrow>
                    if verr \<noteq> None \<or> perr \<noteq> None
                    then (True, st\<lparr>db := d2,
                                   errs := (errs st)\<lparr>vanguardErr := verr, pandoraErr := perr\<rparr>\<rparr>)
                    else (case SaveLatestVerifiedRealmSlot slotToCheck d2 of
                            (rerr, d3) \<Rightarrow>
                              (False, st\<lparr>db := d3,
                                 errs := \<lparr>vanguardErr = verr, pandoraErr = perr,
                                          realmErr = rerr\<rparr>\<rparr>)))))"

text \<open>
  The verification loop (lines 404-470), \<open>for index, vanguardBlockHash := range
  vanguardBlockHashes\<close>: it stops when the pandora batch has no entry at \<open>index\<close>
  (line 407) and at the first failed chain write (line 465).
\<close>

fun verifyLoop :: "slot \<Rightarrow> HeaderHash option list \<Rightarrow> nat \<Rightarrow> HeaderHash option list \<Rightarrow> work_state \<Rightarrow> work_state" where
  "verifyLoop fromS pans index [] st = st"
| "verifyLoop fromS pans index (vanguardBlockHash # rest) st =
     (if length pans \<le> index then st
      else (case verifySlot (fromS + of_nat index) vanguardBlockHash (pans ! index) st of
              (True, st') \<Rightarrow> st'
            | (False, st') \<Rightarrow> verifyLoop fromS pans (Suc index) rest st'))"

text \<open>
  Lines 510-516 and 518-524: \<open>for slot := range pandoraOrphans\<close> and the same for the
  vanguard orphans. The argument is the list of the map's keys in the order the Go
  runtime visits them; every write is issued, and each overwrites the error variable.
\<close>

fun markPandoraOrphans :: "slot list \<Rightarrow> work_state \<Rightarrow> work_state" where
  "markPandoraOrphans [] st = st"
| "markPandoraOrphans (s # rest) st =
     (case SavePandoraHeaderHash s \<lparr>HeaderHash = 0, Status = Skipped\<rparr> (db st) of
        (perr, d1) \<Rightarrow>
          markPandoraOrphans rest (st\<lparr>db := d1, errs := (errs st)\<lparr>pandoraErr := perr\<rparr>\<rparr>))"

fun markVanguardOrphans :: "slot list \<Rightarrow> work_state \<Rightarrow> work_state" where
  "markVanguardOrphans [] st = st"
| "markVanguardOrphans (s # rest) st =
     (case SaveVanguardHeaderHash s \<lparr>HeaderHash = 0, Status = Skipped\<rparr> (db st) of
        (verr, d1) \<Rightarrow>
          markVanguardOrphans rest (st\<lparr>db := d1, errs := (errs st)\<lparr>vanguardErr := verr\<rparr>\<rparr>))"

text \<open>
  Lines 541-568: the loop over \<open>possibleSkippedPair\<close>. A nil pair is passed over, a pair
  above the watermark is appended to \<open>pendingPairs\<close>, any other pair is written as
  \<open>{Status: Skipped}\<close> (zero hash) on both stores; the loop breaks at the first slot with
  a failed write.
\<close>

fun skippedPairsLoop :: "slot \<Rightarrow> RealmPair option list \<Rightarrow> RealmPair list \<Rightarrow> work_state \<Rightarrow> RealmPair list \<times> work_state" where
  "skippedPairsLoop latest [] pendingPairs st = (pendingPairs, st)"
| "skippedPairsLoop latest (None # rest) pendingPairs st =
     skippedPairsLoop latest rest pendingPairs st"
| "skippedPairsLoop latest (Some pair # rest) pendingPairs st =
     (if Slot pair > latest then skippedPairsLoop latest rest (pendingPairs @ [pair]) st
      else (case SaveVanguardHeaderHash (Slot pair) \<lparr>HeaderHash = 0, Status = Skipped\<rparr> (db st) of
              (verr, d1) \<Rightarrow>
                (case SavePandoraHeaderHash (Slot pair) \<lparr>HeaderHash = 0, Status = Skipped\<rparr> d1 of
                   (perr, d2) \<Rightarrow>
                     if verr \<noteq> None \<or> perr \<noteq> None
                     then (pendingPairs,
                           st\<lparr>db := d2, errs := (errs st)\<lparr>vanguardErr := verr, pandoraErr := perr\<rparr>\<rparr>)
                     else skippedPairsLoop latest rest pendingPairs
                            (st\<lparr>db := d2,
                                errs := (errs st)\<lparr>vanguardErr := verr, pandoraErr := perr\<rparr>\<rparr>))))"

text \<open>
  Lines 583-598: the loop over \<open>pendingPairs\<close>. A pair that carries a vanguard hash, or a
  first pandora hash, is written as Skipped with that hash.
\<close>

definition savePendingVanguard :: "RealmPair \<Rightarrow> work_state \<Rightarrow> work_state" where
  "savePendingVanguard pair st =
     (case VanguardHash pair of
        None \<Rightarrow> st
      | Some vh \<Rightarrow>
          (case SaveVanguardHeaderHash (Slot pair)
                  \<lparr>HeaderHash = HeaderHash vh, Status = Skipped\<rparr> (db st) of
             (verr, d1) \<Rightarrow> st\<lparr>db := d1, errs := (errs st)\<lparr>vanguardErr := verr\<rparr>\<rparr>))"

definition savePendingPandora :: "RealmPair \<Rightarrow> work_state \<Rightarrow> work_state" where
  "savePendingPandora pair st =
     (case PandoraHashes pair of
        Some ph # others \<Rightarrow>
          (case SavePandoraHeaderHash (Slot pair)
                  \<lparr>HeaderHash = HeaderHash ph, Status = Skipped\<rparr> (db st) of
             (perr, d1) \<Rightarrow> st\<lparr>db := d1, errs := (errs st)\<lparr>pandoraErr := perr\<rparr>\<rparr>)
      | _ \<Rightarrow> st)"

fun pendingPairsLoop :: "RealmPair list \<Rightarrow> work_state \<Rightarrow> work_state" where
  "pendingPairsLoop [] st = st"
| "pendingPairsLoop (pair # rest) st =
     pendingPairsLoop rest (savePendingPandora pair (savePendingVanguard pair st))"

text \<open>
  Lines 645-662 and 664-680: the loops over the re-read batches. A nil position whose
  slot, computed as \<open>fromSlot + uint64(index)\<close>, is not above the watermark is written as
  \<open>{kv.EmptyHash, Skipped}\<close>.
\<close>

fun fillVanguardGaps :: "slot \<Rightarrow> slot \<Rightarrow> nat \<Rightarrow> HeaderHash option list \<Rightarrow> work_state \<Rightarrow> work_state" where
  "fillVanguardGaps fromS latest index [] st = st"
| "fillVanguardGaps fromS latest index (Some headerHash # rest) st =
     fillVanguardGaps fromS latest (Suc index) rest st"
| "fillVanguardGaps fromS latest index (None # rest) st =
     (if fromS + of_nat index > latest then fillVanguardGaps fromS latest (Suc index) rest st
      else (case SaveVanguardHeaderHash (fromS + of_nat index)
                    \<lparr>HeaderHash = EmptyHash, Status = Skipped\<rparr> (db st) of
              (verr, d1) \<Rightarrow>
                fillVanguardGaps fromS latest (Suc index) rest
                  (st\<lparr>db := d1, errs := (errs st)\<lparr>vanguardErr := verr\<rparr>\<rparr>)))"

fun fillPandoraGaps :: "slot \<Rightarrow> slot \<Rightarrow> nat \<Rightarrow> HeaderHash option list \<Rightarrow> work_state \<Rightarrow> work_state" where
  "fillPandoraGaps fromS latest index [] st = st"
| "fillPandoraGaps fromS latest index (Some headerHash # rest) st =
     fillPandoraGaps fromS latest (Suc index) rest st"
| "fillPandoraGaps fromS latest index (None # rest) st =
     (if fromS + of_nat index > latest then fillPandoraGaps fromS latest (Suc index) rest st
      else (case SavePandoraHeaderHash (fromS + of_nat index)
                    \<lparr>HeaderHash = EmptyHash, Status = Skipped\<rparr> (db st) of
              (perr, d1) \<Rightarrow>
                fillPandoraGaps fromS latest (Suc index) rest
                  (st\<lparr>db := d1, errs := (errs st)\<lparr>pandoraErr := perr\<rparr>\<rparr>)))"

text \<open>
  Lines 613-699: both stores are read again from \<open>invalidationStartRealmSlot\<close> over
  \<open>invalidationRange\<close> slots, then the two gap loops run.
\<close>

definition fillGaps :: "slot \<Rightarrow> 64 word \<Rightarrow> work_state \<Rightarrow> outcome \<times> work_state" where
  "fillGaps latestSavedVerifiedRealmSlot invalidationRange st =
     (case VanguardHeaderHashes (invalidationStartRealmSlot (work st)) invalidationRange (db st) of
        ((finalVanguardBatch, verr), d1) \<Rightarrow>
          (case PandoraHeaderHashes (invalidationStartRealmSlot (work st)) invalidationRange d1 of
             ((finalPandoraBatch, perr), d2) \<Rightarrow>
               (let st1 = st\<lparr>db := d2,
                             errs := (errs st)\<lparr>vanguardErr := verr, pandoraErr := perr\<rparr>\<rparr>
                in if chainErr (errs st1) then (SendsErrors (errs st1), st1)
                   else (let st2 = fillVanguardGaps (fromSlot (work st))
                                     latestSavedVerifiedRealmSlot 0 finalVanguardBatch st1;
                             st3 = fillPandoraGaps (fromSlot (work st))
                                     latestSavedVerifiedRealmSlot 0 finalPandoraBatch st2
                         in if chainErr (errs st3) then (SendsErrors (errs st3), st3)
                            else (Returns, st3)))))"

text \<open>Lines 539-611: the possible-skipped pairs, then the pending pairs.\<close>

definition finalizePairs :: "slot \<Rightarrow> 64 word \<Rightarrow> work_state \<Rightarrow> outcome \<times> work_state" where
  "finalizePairs latestSavedVerifiedRealmSlot invalidationRange st =
     (case skippedPairsLoop latestSavedVerifiedRealmSlot (possibleSkippedPair (work st)) [] st of
        (pendingPairs, st1) \<Rightarrow>
          if chainErr (errs st1) then (SendsErrors (errs st1), st1)
          else (let st2 = pendingPairsLoop pendingPairs st1
                in if chainErr (errs st2) then (SendsErrors (errs st2), st2)
                   else fillGaps latestSavedVerifiedRealmSlot invalidationRange st2))"

text \<open>
  Lines 510-537: the orphans. \<open>rangeOrder\<close> is the order in which Go's \<open>range\<close> over a
  map visits the keys, which the language leaves open.
\<close>

definition finalizeOrphans :: "(slot list \<Rightarrow> slot list) \<Rightarrow> slot \<Rightarrow> 64 word \<Rightarrow> work_state \<Rightarrow> outcome \<times> work_state" where
  "finalizeOrphans rangeOrder latestSavedVerifiedRealmSlot invalidationRange st =
     (let st1 = markPandoraOrphans (rangeOrder (map fst (pandoraOrphans (work st)))) st;
          st2 = markVanguardOrphans (rangeOrder (map fst (vanguardOrphans (work st)))) st1
      in if chainErr (errs st2) then (SendsErrors (errs st2), st2)
         else finalizePairs latestSavedVerifiedRealmSlot invalidationRange st2)"

text \<open>
  Lines 486-508: the watermark is read again and \<open>invalidationRange\<close> is computed in
  \<open>uint64\<close>, then compared with zero as the source does.
\<close>

definition resolvePairs :: "(slot list \<Rightarrow> slot list) \<Rightarrow> work_state \<Rightarrow> outcome \<times> work_state" where
  "resolvePairs rangeOrder st =
     (let latestSavedVerifiedRealmSlot = LatestVerifiedRealmSlot (db st);
          invalidationRange = latestSavedVerifiedRealmSlot - invalidationStartRealmSlot (work st)
      in if 0 = invalidationRange then (Returns, st)
         else if invalidationRange < 0 then (FatalExit, st)
         else finalizeOrphans rangeOrder latestSavedVerifiedRealmSlot invalidationRange st)"

text \<open>\<open>handlePreparedWork\<close> (lines 381-699).\<close>

definition handlePreparedWork :: "(slot list \<Rightarrow> slot list) \<Rightarrow> database \<Rightarrow> invalidationWorkPayload \<Rightarrow> outcome \<times> work_state" where
  "handlePreparedWork rangeOrder d w =
     (let st = verifyLoop (fromSlot w) (pandoraHashes w) 0 (vanguardHashes w)
                 \<lparr>db = d, work = w,
                  errs = \<lparr>vanguardErr = None, pandoraErr = None, realmErr = None\<rparr>\<rparr>
      in if anyErr (errs st) then (SendsErrors (errs st), st)
         else resolvePairs rangeOrder st)"

section \<open>The preparation step and \<open>Canonicalize\<close>\<close>

text \<open>
  How \<open>invokeInvalidation\<close> (lines 119-191) ends: each constructor is the channel send
  that precedes its \<open>return\<close>.
\<close>

datatype prepared =
    ErrorSent databaseErrors
  | SkipSent
  | WorkSent invalidationWorkPayload

definition invokeInvalidation :: "database \<Rightarrow> slot \<Rightarrow> 64 word \<Rightarrow> prepared \<times> database" where
  "invokeInvalidation d fromS batchLimit =
     (let latestSavedVerifiedRealmSlot = LatestVerifiedRealmSlot d
      in if fromS > latestSavedVerifiedRealmSlot
         then (ErrorSent \<lparr>vanguardErr = None, pandoraErr = None,
                          realmErr = Some ''I cannot start invalidation without root''\<rparr>, d)
         else (case PandoraHeaderHashes fromS batchLimit d of
                 ((pandoraHeaderHashes, Some e), d1) \<Rightarrow>
                   (ErrorSent \<lparr>vanguardErr = None, pandoraErr = Some e, realmErr = None\<rparr>, d1)
               | ((pandoraHeaderHashes, None), d1) \<Rightarrow>
                   (case VanguardHeaderHashes fromS batchLimit d1 of
                      ((vanguardBlockHashes, Some e), d2) \<Rightarrow>
                        (ErrorSent \<lparr>vanguardErr = Some e, pandoraErr = None, realmErr = None\<rparr>, d2)
                    | ((vanguardBlockHashes, None), d2) \<Rightarrow>
                        if length pandoraHeaderHashes < 1 \<or> length vanguardBlockHashes < 1
                        then (SkipSent, d2)
                        else (WorkSent
                                \<lparr>invalidationStartRealmSlot = latestSavedVerifiedRealmSlot,
                                 fromSlot = fromS,
                                 possibleSkippedPair = [],
                                 pandoraHashes = pandoraHeaderHashes,
                                 vanguardHashes = vanguardBlockHashes,
                                 pandoraOrphans = [],
                                 vanguardOrphans = []\<rparr>, d2))))"

text \<open>
  The fields of \<open>Service\<close> (lines 36-50) that \<open>Canonicalize\<close> reads or writes. \<open>New\<close>
  (lines 87-114) stores its one \<open>database\<close> argument in the three interface fields, so
  they are nil together: \<open>orchestratorDB\<close> is \<open>None\<close> then. A buffered channel is the
  list of the values it holds, oldest first.
\<close>

record Service =
  orchestratorDB :: "database option"
  started :: bool
  isWorking :: bool
  errChan :: "databaseErrors list"
  invalidationWorkPayloadChan :: "invalidationWorkPayload list"

text \<open>
  What the \<open>select\<close> of \<open>Canonicalize\<close> (line 233) finds outside the service:
  \<open>stopSignal\<close> is the value a sender blocked in \<open>Stop\<close> offers on the unbuffered
  \<open>stopChan\<close>, if there is one; \<open>preferStop\<close> is the runtime's pick when both the stop
  case and the error case are ready.
\<close>

record select_env =
  stopSignal :: "bool option"
  preferStop :: bool

text \<open>
  How a call of \<open>Canonicalize\<close> ends: it returns its three named results, or the calling
  goroutine stays parked at a channel operation that nothing can complete (\<open>Blocked\<close>),
  or \<open>log.Fatal\<close> ends the process (\<open>Exited\<close>).
\<close>

datatype canonicalized =
    Returned "error option" "error option" "error option"
  | Blocked
  | Exited

text \<open>
  The \<open>default\<close> branch (lines 250-266), entered when neither the stop case nor the
  error case is ready, so with an empty \<open>errChan\<close>: no send on it can block, its buffer
  holds 10000 values. \<open>skipChan\<close> is made unbuffered inside \<open>Canonicalize\<close> (line 221) and
  no other goroutine holds it: the send at line 172 never completes. The receive at line
  265 takes the oldest payload of the buffered channel (capacity 10000) and blocks on an
  empty one.
\<close>

definition runPass :: "(slot list \<Rightarrow> slot list) \<Rightarrow> Service \<Rightarrow> database \<Rightarrow> slot \<Rightarrow> 64 word \<Rightarrow> canonicalized \<times> Service" where
  "runPass rangeOrder s d fromS batchLimit =
     (case invokeInvalidation d fromS batchLimit of
        (SkipSent, d1) \<Rightarrow> (Blocked, s\<lparr>orchestratorDB := Some d1\<rparr>)
      | (ErrorSent e, d1) \<Rightarrow>
          (case invalidationWorkPayloadChan s of
             [] \<Rightarrow> (Blocked, s\<lparr>orchestratorDB := Some d1, errChan := errChan s @ [e]\<rparr>)
           | w # queue \<Rightarrow>
               (case handlePreparedWork rangeOrder d1 w of
                  (Returns, st) \<Rightarrow>
                    (Returned None None None,
                     s\<lparr>orchestratorDB := Some (db st), errChan := errChan s @ [e],
                       invalidationWorkPayloadChan := queue\<rparr>)
                | (SendsErrors e', st) \<Rightarrow>
                    (Returned None None None,
                     s\<lparr>orchestratorDB := Some (db st), errChan := errChan s @ [e, e'],
                       invalidationWorkPayloadChan := queue\<rparr>)
                | (FatalExit, st) \<Rightarrow>
                    (Exited,
                     s\<lparr>orchestratorDB := Some (db st), errChan := errChan s @ [e],
                       invalidationWorkPayloadChan := queue\<rparr>)))
      | (WorkSent w', d1) \<Rightarrow>
          if length (invalidationWorkPayloadChan s) \<ge> 10000
          then (Blocked, s\<lparr>orchestratorDB := Some d1\<rparr>)
          else (case invalidationWorkPayloadChan s @ [w'] of
                  [] \<Rightarrow> (Blocked, s\<lparr>orchestratorDB := Some d1\<rparr>)
                | w # queue \<Rightarrow>
                    (case handlePreparedWork rangeOrder d1 w of
                       (Returns, st) \<Rightarrow>
                         (Returned None None None,
                          s\<lparr>orchestratorDB := Some (db st),
                            invalidationWorkPayloadChan := queue\<rparr>)
                     | (SendsErrors e', st) \<Rightarrow>
                         (Returned None None None,
                          s\<lparr>orchestratorDB := Some (db st), errChan := errChan s @ [e'],
                            invalidationWorkPayloadChan := queue\<rparr>)
                     | (FatalExit, st) \<Rightarrow>
                         (Exited,
                          s\<lparr>orchestratorDB := Some (db st),
                            invalidationWorkPayloadChan := queue\<rparr>))))"

text \<open>
  \<open>Service.Canonicalize\<close> (lines 196-270). The case \<open><-skipChan\<close> of the \<open>select\<close> is
  never ready: the channel was made three lines above and nothing has been sent on it.
\<close>

definition Canonicalize :: "select_env \<Rightarrow> (slot list \<Rightarrow> slot list) \<Rightarrow> Service option \<Rightarrow> slot \<Rightarrow> 64 word \<Rightarrow> canonicalized \<times> Service option" where
  "Canonicalize env rangeOrder service fromS batchLimit =
     (case service of
        None \<Rightarrow>
          (Returned None None (Some ''cannot start canonicalization without service''), None)
      | Some s \<Rightarrow>
          if \<not> started s then (Exited, Some s)
          else (case orchestratorDB s of
                  None \<Rightarrow> (Returned None None None, Some s)
                | Some d \<Rightarrow>
                    (case (stopSignal env, errChan s) of
                       (None, []) \<Rightarrow>
                         (case runPass rangeOrder s d fromS batchLimit of
                            (r, s') \<Rightarrow> (r, Some s'))
                     | (None, e # queue) \<Rightarrow>
                         (Returned (vanguardErr e) (pandoraErr e) (realmErr e),
                          Some (s\<lparr>errChan := queue\<rparr>))
                     | (Some stop, []) \<Rightarrow>
                         (Returned None None None,
                          Some (if stop then s\<lparr>isWorking := False\<rparr> else s))
                     | (Some stop, e # queue) \<Rightarrow>
                         if preferStop env
                         then (Returned None None None,
                               Some (if stop then s\<lparr>isWorking := False\<rparr> else s))
                         else (Returned (vanguardErr e) (pandoraErr e) (realmErr e),
                               Some (s\<lparr>errChan := queue\<rparr>)))))"

section \<open>The ingestion hook \<open>OnNewPendingVanguardBlock\<close>\<close>

text \<open>
  \<open>eth.BeaconBlock\<close> comes from an external library: the hook reads its \<open>Slot\<close> and calls
  its method \<open>HashTreeRoot\<close>, which is a parameter of the model and returns the root or
  an error. A nil block is \<open>None\<close>.
\<close>

record 'body BeaconBlock =
  BlockSlot :: slot
  Body :: 'body

text \<open>
  \<open>Service.OnNewPendingVanguardBlock\<close> (handler.go, lines 24-50) on the service's
  \<open>vanguardHeaderHashDB\<close>. The hook returns nothing: the result is the list of warnings
  it logs (message and error) and the database.
\<close>

definition OnNewPendingVanguardBlock :: "('body BeaconBlock \<Rightarrow> error + hash) \<Rightarrow> 'body BeaconBlock option \<Rightarrow> database \<Rightarrow> (string \<times> error) list \<times> database" where
  "OnNewPendingVanguardBlock HashTreeRoot block d =
     (case block of
        None \<Rightarrow> ([(''failed to save vanguard block hash'', ''block cannot be nil'')], d)
      | Some b \<Rightarrow>
          (case HashTreeRoot b of
             Inl err \<Rightarrow> ([(''failed to save vanguard block hash'', err)], d)
           | Inr blockHash \<Rightarrow>
               (case SaveVanguardHeaderHash (BlockSlot b)
                       \<lparr>HeaderHash = blockHash, Status = Pending\<rparr> d of
                  (Some err, d') \<Rightarrow> ([(''failed to save vanguard block hash'', err)], d')
                | (None, d') \<Rightarrow> ([], d'))))"

section \<open>The header cache\<close>

text \<open>
  Headers live in memory and are handled through pointers, and the claim about the cache
  is about pointer identity, so memory is explicit: a heap is the list of the header
  values allocated so far, and a (non-nil) pointer is an index into it.
\<close>

type_synonym addr = nat

text \<open>
  Modelled from the spec: \<open>types.CopyHeader\<close> is in the absent package \<open>shared/types\<close>;
  section 4.1 says that the cache "deep-copies the header". The copy is a newly allocated
  header with the value of the original. \<open>None\<close> stands for a pointer that does not point
  to a header, which a non-nil Go pointer cannot be.
\<close>

definition CopyHeader :: "'h list \<Rightarrow> addr \<Rightarrow> (addr \<times> 'h list) option" where
  "CopyHeader heap header =
     (if header < length heap then Some (length heap, heap @ [heap ! header]) else None)"

text \<open>
  The external \<open>lru.Cache\<close> of hashicorp/golang-lru: the entries, most recently used
  first, and the capacity given to \<open>lru.New\<close>. \<open>Add\<close> moves an existing key to the front
  with its new value, or inserts at the front and evicts the oldest entry when the
  capacity is exceeded; \<open>Get\<close> moves the entry it finds to the front.
\<close>

record lru_cache =
  capacity :: nat
  entries :: "(slot \<times> addr) list"

definition lruAdd :: "slot \<Rightarrow> addr \<Rightarrow> lru_cache \<Rightarrow> lru_cache" where
  "lruAdd k v c =
     (if k \<in> fst ` set (entries c)
      then c\<lparr>entries := (k, v) # filter (\<lambda>kv. fst kv \<noteq> k) (entries c)\<rparr>
      else c\<lparr>entries := take (capacity c) ((k, v) # entries c)\<rparr>)"

definition lruGet :: "slot \<Rightarrow> lru_cache \<Rightarrow> addr option \<times> lru_cache" where
  "lruGet k c =
     (case map_of (entries c) k of
        None \<Rightarrow> (None, c)
      | Some v \<Rightarrow> (Some v, c\<lparr>entries := (k, v) # filter (\<lambda>kv. fst kv \<noteq> k) (entries c)\<rparr>))"

definition maxPanHeaderCacheSize :: nat where
  "maxPanHeaderCacheSize = 2 ^ 10"

definition errInvalidSlot :: error where
  "errInvalidSlot = ''Invalid slot''"

text \<open>\<open>NewPanHeaderCache\<close> (part_000, lines 27-35); \<open>lru.New\<close> fails only on a size below 1.\<close>

definition NewPanHeaderCache :: lru_cache where
  "NewPanHeaderCache = \<lparr>capacity = maxPanHeaderCacheSize, entries = []\<rparr>"

text \<open>
  \<open>PanHeaderCache.Put\<close> (part_000, lines 38-42): the returned error is always nil.
  The result is \<open>None\<close> when \<open>header\<close> points to no header.
\<close>

definition Put :: "lru_cache \<Rightarrow> 'h list \<Rightarrow> slot \<Rightarrow> addr \<Rightarrow> (error option \<times> lru_cache \<times> 'h list) option" where
  "Put c heap slot header =
     (case CopyHeader heap header of
        None \<Rightarrow> None
      | Some (copyHeader, heap') \<Rightarrow> Some (None, lruAdd slot copyHeader c, heap'))"

text \<open>
  \<open>PanHeaderCache.Get\<close> (part_000, lines 45-53). Every cached item is a pointer that
  \<open>Put\<close> got from \<open>CopyHeader\<close>, so the test \<open>item != nil\<close> holds whenever \<open>exists\<close> does.
\<close>

definition Get :: "lru_cache \<Rightarrow> 'h list \<Rightarrow> slot \<Rightarrow> ((error + addr) \<times> lru_cache \<times> 'h list) option" where
  "Get c heap slot =
     (case lruGet slot c of
        (Some item, c') \<Rightarrow>
          (case CopyHeader heap item of
             None \<Rightarrow> None
           | Some (copiedHeader, heap') \<Rightarrow> Some (Inr copiedHeader, c', heap'))
      | (None, c') \<Rightarrow> Some (Inl errInvalidSlot, c', heap))"

section \<open>Notions for stating what a pass writes\<close>

text \<open>
  The state of a run of \<open>handlePreparedWork\<close> when the verification loop arrives at index
  \<open>n\<close> (it has been through the indices below \<open>n\<close>, unless it stopped before), and the
  state when the loop is over (line 470).
\<close>

definition atIndex :: "nat \<Rightarrow> database \<Rightarrow> invalidationWorkPayload \<Rightarrow> work_state" where
  "atIndex n d w =
     verifyLoop (fromSlot w) (pandoraHashes w) 0 (take n (vanguardHashes w))
       \<lparr>db = d, work = w, errs = \<lparr>vanguardErr = None, pandoraErr = None, realmErr = None\<rparr>\<rparr>"

definition afterVerification :: "database \<Rightarrow> invalidationWorkPayload \<Rightarrow> work_state" where
  "afterVerification d w =
     verifyLoop (fromSlot w) (pandoraHashes w) 0 (vanguardHashes w)
       \<lparr>db = d, work = w, errs = \<lparr>vanguardErr = None, pandoraErr = None, realmErr = None\<rparr>\<rparr>"

text \<open>The calls issued on the way from the database \<open>d\<close> to the database \<open>d'\<close>.\<close>

definition newCalls :: "database \<Rightarrow> database \<Rightarrow> db_call list" where
  "newCalls d d' = drop (length (calls d)) (calls d')"

text \<open>
  Both batches hold a record at index \<open>j\<close>: the slot is verified when the loop gets there.
\<close>

definition paired :: "invalidationWorkPayload \<Rightarrow> nat \<Rightarrow> bool" where
  "paired w j = (vanguardHashes w ! j \<noteq> None \<and> pandoraHashes w ! j \<noteq> None)"

text \<open>
  The candidate pairs that the verification loop itself appends carry no hash; this says
  so of a whole list (nil pairs aside).
\<close>

definition hashfree :: "RealmPair option list \<Rightarrow> bool" where
  "hashfree ps =
     (\<forall>pair. Some pair \<in> set ps \<longrightarrow> VanguardHash pair = None \<and> PandoraHashes pair = [])"

text \<open>
  A call of the verification loop for one of the first \<open>n\<close> indices: a write of the
  Verified record with the hash found in the batch, on either store, or the watermark
  update, at the slot of an index where both batches hold a record.
\<close>

definition verifiedCall :: "slot \<Rightarrow> HeaderHash option list \<Rightarrow> HeaderHash option list \<Rightarrow> nat \<Rightarrow> db_call \<Rightarrow> bool" where
  "verifiedCall fromS vans pans n c =
     (\<exists>j<n. \<exists>v p. vans ! j = Some v \<and> pans ! j = Some p
        \<and> (c = VanSave (fromS + of_nat j) \<lparr>HeaderHash = HeaderHash v, Status = Verified\<rparr>
           \<or> c = PanSave (fromS + of_nat j) \<lparr>HeaderHash = HeaderHash p, Status = Verified\<rparr>
           \<or> c = RealmSave (fromS + of_nat j)))"

text \<open>
  A call of the steps after the verification loop: a \<open>Range\<close> read, or a write of the
  record \<open>{empty hash, Skipped}\<close> at a slot of \<open>W\<close>.
\<close>

definition skipCall :: "slot set \<Rightarrow> db_call \<Rightarrow> bool" where
  "skipCall W c =
     (case c of
        VanSave t h \<Rightarrow> t \<in> W \<and> h = \<lparr>HeaderHash = 0, Status = Skipped\<rparr>
      | PanSave t h \<Rightarrow> t \<in> W \<and> h = \<lparr>HeaderHash = 0, Status = Skipped\<rparr>
      | RealmSave t \<Rightarrow> False
      | VanRange f l \<Rightarrow> True
      | PanRange f l \<Rightarrow> True)"

section \<open>Notions for stating scenarios\<close>

text \<open>
  A started service on the database \<open>d\<close> with empty channels; a database that holds the
  Pending records ingested so far (slot and hash per chain) and a watermark; a \<open>select\<close>
  that finds no stop signal; and what a call of \<open>Canonicalize\<close> leaves behind: the
  database, its stores, watermark and call log, and the content of the error channel.
\<close>

definition startedService :: "database \<Rightarrow> Service" where
  "startedService d = \<lparr>orchestratorDB = Some d, started = True, isWorking = False,
     errChan = [], invalidationWorkPayloadChan = []\<rparr>"

definition ingested :: "(slot \<times> hash) list \<Rightarrow> (slot \<times> hash) list \<Rightarrow> slot \<Rightarrow> (db_call list \<Rightarrow> db_call \<Rightarrow> error option) \<Rightarrow> database" where
  "ingested van pan watermark f =
     \<lparr>vanguardStore = map_of (map (\<lambda>(s, h). (s, \<lparr>HeaderHash = h, Status = Pending\<rparr>)) van),
      pandoraStore = map_of (map (\<lambda>(s, h). (s, \<lparr>HeaderHash = h, Status = Pending\<rparr>)) pan),
      realm = watermark, calls = [], faults = f\<rparr>"

definition quiet :: select_env where
  "quiet = \<lparr>stopSignal = None, preferStop = False\<rparr>"

definition passDB :: "canonicalized \<times> Service option \<Rightarrow> database option" where
  "passDB r = (case snd r of None \<Rightarrow> None | Some s \<Rightarrow> orchestratorDB s)"

definition vanguardAfter :: "canonicalized \<times> Service option \<Rightarrow> slot \<Rightarrow> HeaderHash option" where
  "vanguardAfter r s = (case passDB r of None \<Rightarrow> None | Some d \<Rightarrow> vanguardStore d s)"

definition pandoraAfter :: "canonicalized \<times> Service option \<Rightarrow> slot \<Rightarrow> HeaderHash option" where
  "pandoraAfter r s = (case passDB r of None \<Rightarrow> None | Some d \<Rightarrow> pandoraStore d s)"

definition watermarkAfter :: "canonicalized \<times> Service option \<Rightarrow> slot option" where
  "watermarkAfter r = map_option realm (passDB r)"

definition callsAfter :: "canonicalized \<times> Service option \<Rightarrow> db_call list" where
  "callsAfter r = (case passDB r of None \<Rightarrow> [] | Some d \<Rightarrow> calls d)"

definition errChanAfter :: "canonicalized \<times> Service option \<Rightarrow> databaseErrors list" where
  "errChanAfter r = (case snd r of None \<Rightarrow> [] | Some s \<Rightarrow> errChan s)"

definition failVanguardSaveAt :: "slot \<Rightarrow> db_call list \<Rightarrow> db_call \<Rightarrow> error option" where
  "failVanguardSaveAt s log c =
     (case c of VanSave t h \<Rightarrow> if t = s then Some ''write failed'' else None | _ \<Rightarrow> None)"

section \<open>Database calls and their replay\<close>

lemma perform_fst: "fst (perform c d) = faults d (calls d) c"
  by (simp add: perform_def split: option.splits)

lemma perform_calls: "calls (snd (perform c d)) = calls d @ [c]"
  by (simp add: perform_def split: option.splits)

lemma perform_faults: "faults (snd (perform c d)) = faults d"
  by (cases c) (simp_all add: perform_def split: option.splits)

lemma replay_Nil: "replay [] d = d"
  by (simp add: replay_def)

lemma replay_Cons: "replay (c # cs) d = replay cs (snd (perform c d))"
  by (simp add: replay_def)

lemma replay_append: "replay (cs @ cs') d = replay cs' (replay cs d)"
  by (simp add: replay_def)

lemma replay_replay: "replay cs' (replay cs d) = replay (cs @ cs') d"
  by (simp add: replay_def)

lemma replay_one: "replay [c] d = snd (perform c d)"
  by (simp add: replay_def)

lemma calls_replay: "calls (replay cs d) = calls d @ cs"
  by (induction cs arbitrary: d) (simp_all add: replay_Nil replay_Cons perform_calls)

lemma faults_replay: "faults (replay cs d) = faults d"
  by (induction cs arbitrary: d) (simp_all add: replay_Nil replay_Cons perform_faults)

lemma realm_perform:
  "realm (snd (perform c d)) =
     (case c of RealmSave s \<Rightarrow> (if faults d (calls d) c = None then s else realm d)
      | _ \<Rightarrow> realm d)"
  by (cases c) (simp_all add: perform_def split: option.splits)

lemma vanguardStore_perform:
  "vanguardStore (snd (perform c d)) =
     (case c of VanSave s h \<Rightarrow>
        (if faults d (calls d) c = None then (vanguardStore d)(s \<mapsto> h) else vanguardStore d)
      | _ \<Rightarrow> vanguardStore d)"
  by (cases c) (simp_all add: perform_def split: option.splits)

lemma pandoraStore_perform:
  "pandoraStore (snd (perform c d)) =
     (case c of PanSave s h \<Rightarrow>
        (if faults d (calls d) c = None then (pandoraStore d)(s \<mapsto> h) else pandoraStore d)
      | _ \<Rightarrow> pandoraStore d)"
  by (cases c) (simp_all add: perform_def split: option.splits)

lemma realm_replay:
  "\<forall>s. RealmSave s \<notin> set cs \<Longrightarrow> realm (replay cs d) = realm d"
  by (induction cs arbitrary: d)
    (auto simp: replay_Nil replay_Cons realm_perform split: db_call.splits)

lemma vanguardStore_replay_other:
  "\<forall>h. VanSave s h \<notin> set cs \<Longrightarrow> vanguardStore (replay cs d) s = vanguardStore d s"
  by (induction cs arbitrary: d)
    (auto simp: replay_Nil replay_Cons vanguardStore_perform split: db_call.splits)

lemma pandoraStore_replay_other:
  "\<forall>h. PanSave s h \<notin> set cs \<Longrightarrow> pandoraStore (replay cs d) s = pandoraStore d s"
  by (induction cs arbitrary: d)
    (auto simp: replay_Nil replay_Cons pandoraStore_perform split: db_call.splits)

lemma vanguardStore_replay_noFaults:
  assumes "faults d = noFaults" and "\<forall>h. VanSave s h \<in> set cs \<longrightarrow> h = r"
    and "(\<exists>h. VanSave s h \<in> set cs) \<or> vanguardStore d s = Some r"
  shows "vanguardStore (replay cs d) s = Some r"
  using assms
proof (induction cs arbitrary: d)
  case Nil
  then show ?case by (simp add: replay_Nil)
next
  case (Cons c cs)
  let ?d = "snd (perform c d)"
  have f: "faults ?d = noFaults" using Cons.prems(1) by (simp add: perform_faults)
  have a: "\<forall>h. VanSave s h \<in> set cs \<longrightarrow> h = r" using Cons.prems(2) by simp
  have "(\<exists>h. VanSave s h \<in> set cs) \<or> vanguardStore ?d s = Some r"
  proof (cases "\<exists>h. VanSave s h \<in> set cs")
    case True
    then show ?thesis by simp
  next
    case False
    show ?thesis
    proof (cases "\<exists>h. c = VanSave s h")
      case True
      then obtain h where c: "c = VanSave s h" by blast
      with Cons.prems(2) have "h = r" by simp
      with c Cons.prems(1) show ?thesis by (simp add: vanguardStore_perform noFaults_def)
    next
      case no: False
      with False Cons.prems(3) have "vanguardStore d s = Some r" by auto
      with no show ?thesis by (cases c) (auto simp: vanguardStore_perform)
    qed
  qed
  with f a have "vanguardStore (replay cs ?d) s = Some r" by (rule Cons.IH)
  then show ?case by (simp add: replay_Cons)
qed

lemma pandoraStore_replay_noFaults:
  assumes "faults d = noFaults" and "\<forall>h. PanSave s h \<in> set cs \<longrightarrow> h = r"
    and "(\<exists>h. PanSave s h \<in> set cs) \<or> pandoraStore d s = Some r"
  shows "pandoraStore (replay cs d) s = Some r"
  using assms
proof (induction cs arbitrary: d)
  case Nil
  then show ?case by (simp add: replay_Nil)
next
  case (Cons c cs)
  let ?d = "snd (perform c d)"
  have f: "faults ?d = noFaults" using Cons.prems(1) by (simp add: perform_faults)
  have a: "\<forall>h. PanSave s h \<in> set cs \<longrightarrow> h = r" using Cons.prems(2) by simp
  have "(\<exists>h. PanSave s h \<in> set cs) \<or> pandoraStore ?d s = Some r"
  proof (cases "\<exists>h. PanSave s h \<in> set cs")
    case True
    then show ?thesis by simp
  next
    case False
    show ?thesis
    proof (cases "\<exists>h. c = PanSave s h")
      case True
      then obtain h where c: "c = PanSave s h" by blast
      with Cons.prems(2) have "h = r" by simp
      with c Cons.prems(1) show ?thesis by (simp add: pandoraStore_perform noFaults_def)
    next
      case no: False
      with False Cons.prems(3) have "pandoraStore d s = Some r" by auto
      with no show ?thesis by (cases c) (auto simp: pandoraStore_perform)
    qed
  qed
  with f a have "pandoraStore (replay cs ?d) s = Some r" by (rule Cons.IH)
  then show ?case by (simp add: replay_Cons)
qed

text \<open>The operations as replays.\<close>

lemma Save_replay:
  "snd (SaveVanguardHeaderHash s h d) = replay [VanSave s h] d"
  "snd (SavePandoraHeaderHash s h d) = replay [PanSave s h] d"
  "snd (SaveLatestVerifiedRealmSlot s d) = replay [RealmSave s] d"
  by (simp_all add: SaveVanguardHeaderHash_def SavePandoraHeaderHash_def
      SaveLatestVerifiedRealmSlot_def replay_one)

lemma Save_fst:
  "fst (SaveVanguardHeaderHash s h d) = faults d (calls d) (VanSave s h)"
  "fst (SavePandoraHeaderHash s h d) = faults d (calls d) (PanSave s h)"
  "fst (SaveLatestVerifiedRealmSlot s d) = faults d (calls d) (RealmSave s)"
  by (simp_all add: SaveVanguardHeaderHash_def SavePandoraHeaderHash_def
      SaveLatestVerifiedRealmSlot_def perform_fst)

lemma Range_replay:
  "snd (VanguardHeaderHashes f l d) = replay [VanRange f l] d"
  "snd (PandoraHeaderHashes f l d) = replay [PanRange f l] d"
  by (simp_all add: VanguardHeaderHashes_def PandoraHeaderHashes_def replay_one
      case_prod_beta split: option.splits)

lemma Range_fst:
  "snd (fst (VanguardHeaderHashes f l d)) = faults d (calls d) (VanRange f l)"
  "snd (fst (PandoraHeaderHashes f l d)) = faults d (calls d) (PanRange f l)"
  "fst (fst (VanguardHeaderHashes f l d)) =
     (if faults d (calls d) (VanRange f l) = None then denseRange (vanguardStore d) f l else [])"
  "fst (fst (PandoraHeaderHashes f l d)) =
     (if faults d (calls d) (PanRange f l) = None then denseRange (pandoraStore d) f l else [])"
  by (simp_all add: VanguardHeaderHashes_def PandoraHeaderHashes_def perform_def
      split: option.splits)

section \<open>One iteration of the verification loop\<close>

lemma verifySlot_paired:
  "verifySlot s (Some v) (Some p) st =
     (if faults (db st) (calls (db st)) (VanSave s \<lparr>HeaderHash = HeaderHash v, Status = Verified\<rparr>) \<noteq> None
       \<or> faults (db st) (calls (db st) @ [VanSave s \<lparr>HeaderHash = HeaderHash v, Status = Verified\<rparr>])
            (PanSave s \<lparr>HeaderHash = HeaderHash p, Status = Verified\<rparr>) \<noteq> None
      then (True, st\<lparr>db := replay [VanSave s \<lparr>HeaderHash = HeaderHash v, Status = Verified\<rparr>,
                                   PanSave s \<lparr>HeaderHash = HeaderHash p, Status = Verified\<rparr>] (db st),
                      errs := (errs st)\<lparr>
                        vanguardErr := faults (db st) (calls (db st))
                          (VanSave s \<lparr>HeaderHash = HeaderHash v, Status = Verified\<rparr>),
                        pandoraErr := faults (db st)
                          (calls (db st) @ [VanSave s \<lparr>HeaderHash = HeaderHash v, Status = Verified\<rparr>])
                          (PanSave s \<lparr>HeaderHash = HeaderHash p, Status = Verified\<rparr>)\<rparr>\<rparr>)
      else (False, st\<lparr>db := replay [VanSave s \<lparr>HeaderHash = HeaderHash v, Status = Verified\<rparr>,
                                    PanSave s \<lparr>HeaderHash = HeaderHash p, Status = Verified\<rparr>,
                                    RealmSave s] (db st),
                       errs := \<lparr>vanguardErr = None, pandoraErr = None,
                                realmErr = faults (db st)
                                  (calls (db st) @ [VanSave s \<lparr>HeaderHash = HeaderHash v, Status = Verified\<rparr>,
                                                    PanSave s \<lparr>HeaderHash = HeaderHash p, Status = Verified\<rparr>])
                                  (RealmSave s)\<rparr>\<rparr>))"
  by (simp add: verifySlot_def case_prod_beta Save_replay Save_fst calls_replay faults_replay
      replay_replay)

lemma verifySlot_unpaired:
  assumes "v = None \<or> p = None"
  shows "fst (verifySlot s v p st) = False"
    and "db (snd (verifySlot s v p st)) = db st"
    and "errs (snd (verifySlot s v p st)) = errs st"
  using assms by (cases v; cases p; simp add: verifySlot_def)+

lemma verifySlot_work:
  "work (snd (verifySlot s v p st)) =
     (case (p, v) of
        (None, None) \<Rightarrow> (work st)\<lparr>possibleSkippedPair := possibleSkippedPair (work st) @
            [Some \<lparr>Slot = s, VanguardHash = None, PandoraHashes = []\<rparr>]\<rparr>
      | (None, Some v') \<Rightarrow> (work st)\<lparr>vanguardOrphans :=
            AList.update s \<lparr>HeaderHash = HeaderHash v', Status = Pending\<rparr> (vanguardOrphans (work st))\<rparr>
      | (Some p', None) \<Rightarrow> (work st)\<lparr>pandoraOrphans :=
            AList.update s \<lparr>HeaderHash = HeaderHash p', Status = Pending\<rparr> (pandoraOrphans (work st))\<rparr>
      | (Some p', Some v') \<Rightarrow> work st)"
  by (cases v; cases p) (simp_all add: verifySlot_paired, simp_all add: verifySlot_def)

lemma verifySlot_break:
  "fst (verifySlot s v p st) \<Longrightarrow> chainErr (errs (snd (verifySlot s v p st)))"
  by (cases v; cases p) (auto simp: verifySlot_paired chainErr_def verifySlot_unpaired split: if_splits)

lemma verifySlot_continue:
  "\<not> fst (verifySlot s v p st) \<Longrightarrow> \<not> chainErr (errs st) \<Longrightarrow>
     \<not> chainErr (errs (snd (verifySlot s v p st)))"
  by (cases v; cases p) (auto simp: verifySlot_paired chainErr_def verifySlot_unpaired split: if_splits)

section \<open>The verification loop, prefix by prefix\<close>

lemma verifyLoop_append:
  "\<not> chainErr (errs st) \<Longrightarrow> k + length xs \<le> length pans \<Longrightarrow>
   verifyLoop fromS pans k (xs @ ys) st =
     (if chainErr (errs (verifyLoop fromS pans k xs st)) then verifyLoop fromS pans k xs st
      else verifyLoop fromS pans (k + length xs) ys (verifyLoop fromS pans k xs st))"
proof (induction xs arbitrary: k st)
  case Nil
  then show ?case by simp
next
  case (Cons x xs)
  let ?r = "verifySlot (fromS + of_nat k) x (pans ! k) st"
  from Cons.prems have k: "\<not> length pans \<le> k" by simp
  show ?case
  proof (cases "fst ?r")
    case True
    then have "chainErr (errs (snd ?r))" by (rule verifySlot_break)
    with True k show ?thesis by (simp add: case_prod_beta)
  next
    case False
    then have "\<not> chainErr (errs (snd ?r))" using Cons.prems(1) by (rule verifySlot_continue)
    moreover have "Suc k + length xs \<le> length pans" using Cons.prems by simp
    ultimately have "verifyLoop fromS pans (Suc k) (xs @ ys) (snd ?r) =
       (if chainErr (errs (verifyLoop fromS pans (Suc k) xs (snd ?r)))
        then verifyLoop fromS pans (Suc k) xs (snd ?r)
        else verifyLoop fromS pans (Suc k + length xs) ys (verifyLoop fromS pans (Suc k) xs (snd ?r)))"
      by (rule Cons.IH)
    with False k show ?thesis by (simp add: case_prod_beta)
  qed
qed

lemma verifyLoop_take_Suc:
  assumes "\<not> chainErr (errs st)" and "n < length vans" and "n < length pans"
  shows "verifyLoop fromS pans 0 (take (Suc n) vans) st =
           (if chainErr (errs (verifyLoop fromS pans 0 (take n vans) st))
            then verifyLoop fromS pans 0 (take n vans) st
            else snd (verifySlot (fromS + of_nat n) (vans ! n) (pans ! n)
                       (verifyLoop fromS pans 0 (take n vans) st)))"
proof -
  have "take (Suc n) vans = take n vans @ [vans ! n]"
    using assms(2) by (rule take_Suc_conv_app_nth)
  moreover have "0 + length (take n vans) \<le> length pans" using assms(2,3) by simp
  moreover have "length (take n vans) = n" using assms(2) by simp
  ultimately show ?thesis
    using verifyLoop_append [OF assms(1), of 0 "take n vans" pans fromS "[vans ! n]"] assms(3)
    by (simp add: case_prod_beta split: bool.splits)
qed

lemma verifyLoop_stuck:
  assumes "\<not> chainErr (errs st)" and "n \<le> length vans" and "n \<le> length pans"
    and "m \<le> n" and "chainErr (errs (verifyLoop fromS pans 0 (take m vans) st))"
  shows "verifyLoop fromS pans 0 (take n vans) st = verifyLoop fromS pans 0 (take m vans) st"
  using assms(2,3,4)
proof (induction n)
  case 0
  then show ?case by simp
next
  case (Suc n)
  show ?case
  proof (cases "m = Suc n")
    case True
    then show ?thesis by simp
  next
    case False
    with Suc.prems have mn: "m \<le> n" and n: "n < length vans" "n < length pans" by simp_all
    then have eq: "verifyLoop fromS pans 0 (take n vans) st = verifyLoop fromS pans 0 (take m vans) st"
      using Suc.IH by simp
    show ?thesis
      using verifyLoop_take_Suc [OF assms(1) n, of fromS] assms(5) by (simp add: eq)
  qed
qed

lemma verifyLoop_reached:
  assumes "\<not> chainErr (errs st)" and "n \<le> length vans" and "n \<le> length pans"
    and "m \<le> n" and "\<not> chainErr (errs (verifyLoop fromS pans 0 (take n vans) st))"
  shows "\<not> chainErr (errs (verifyLoop fromS pans 0 (take m vans) st))"
  using verifyLoop_stuck [OF assms(1-4), of fromS] assms(5) by auto

lemma verifyLoop_cut:
  "verifyLoop fromS pans k xs st = verifyLoop fromS pans k (take (length pans - k) xs) st"
proof (induction xs arbitrary: k st)
  case Nil
  then show ?case by simp
next
  case (Cons x xs)
  show ?case
  proof (cases "length pans \<le> k")
    case True
    then show ?thesis by simp
  next
    case False
    then obtain r where r: "length pans - k = Suc r" and r': "length pans - Suc k = r"
      by (cases "length pans - k") auto
    show ?thesis
      using False Cons.IH [of "Suc k"] by (simp add: r r' case_prod_beta split: bool.splits)
  qed
qed

lemma verifyLoop_full:
  "verifyLoop fromS pans 0 vans st =
     verifyLoop fromS pans 0 (take (min (length vans) (length pans)) vans) st"
proof -
  have "take (length pans) vans = take (min (length vans) (length pans)) vans"
    by (cases "length pans \<le> length vans") (simp_all add: min_def)
  then show ?thesis using verifyLoop_cut [of fromS pans 0 vans st] by simp
qed

text \<open>What the loop has done after its first \<open>n\<close> iterations, at most.\<close>

lemma verifiedCall_mono:
  assumes "verifiedCall fromS vans pans n c" and "n \<le> m"
  shows "verifiedCall fromS vans pans m c"
proof -
  from assms(1) obtain j where j: "j < n"
    and r: "\<exists>v p. vans ! j = Some v \<and> pans ! j = Some p
        \<and> (c = VanSave (fromS + of_nat j) \<lparr>HeaderHash = HeaderHash v, Status = Verified\<rparr>
           \<or> c = PanSave (fromS + of_nat j) \<lparr>HeaderHash = HeaderHash p, Status = Verified\<rparr>
           \<or> c = RealmSave (fromS + of_nat j))"
    unfolding verifiedCall_def by blast
  from j assms(2) have "j < m" by simp
  with r show ?thesis unfolding verifiedCall_def by blast
qed

lemma verifyLoop_upper:
  assumes "\<not> chainErr (errs st)" and "n \<le> length vans" and "n \<le> length pans"
  shows "(\<exists>cs. db (verifyLoop fromS pans 0 (take n vans) st) = replay cs (db st)
            \<and> (\<forall>c\<in>set cs. verifiedCall fromS vans pans n c))
       \<and> set (possibleSkippedPair (work (verifyLoop fromS pans 0 (take n vans) st)))
            \<subseteq> set (possibleSkippedPair (work st))
              \<union> {Some \<lparr>Slot = fromS + of_nat j, VanguardHash = None, PandoraHashes = []\<rparr> | j.
                   j < n \<and> vans ! j = None \<and> pans ! j = None}
       \<and> fst ` set (vanguardOrphans (work (verifyLoop fromS pans 0 (take n vans) st)))
            \<subseteq> fst ` set (vanguardOrphans (work st))
              \<union> {fromS + of_nat j | j. j < n \<and> vans ! j \<noteq> None \<and> pans ! j = None}
       \<and> fst ` set (pandoraOrphans (work (verifyLoop fromS pans 0 (take n vans) st)))
            \<subseteq> fst ` set (pandoraOrphans (work st))
              \<union> {fromS + of_nat j | j. j < n \<and> vans ! j = None \<and> pans ! j \<noteq> None}
       \<and> fromSlot (work (verifyLoop fromS pans 0 (take n vans) st)) = fromSlot (work st)
       \<and> invalidationStartRealmSlot (work (verifyLoop fromS pans 0 (take n vans) st))
            = invalidationStartRealmSlot (work st)"
  using assms(2,3)
proof (induction n)
  case 0
  have "db st = replay [] (db st)" by (simp add: replay_Nil)
  then show ?case by auto
next
  case (Suc n)
  let ?L = "verifyLoop fromS pans 0 (take n vans) st"
  let ?s = "fromS + of_nat n"
  from Suc.prems have n: "n < length vans" "n < length pans" by simp_all
  from Suc.IH n obtain cs where
    cs: "db ?L = replay cs (db st)" "\<forall>c\<in>set cs. verifiedCall fromS vans pans n c"
    and ps: "set (possibleSkippedPair (work ?L)) \<subseteq> set (possibleSkippedPair (work st))
              \<union> {Some \<lparr>Slot = fromS + of_nat j, VanguardHash = None, PandoraHashes = []\<rparr> | j.
                   j < n \<and> vans ! j = None \<and> pans ! j = None}"
    and vo: "fst ` set (vanguardOrphans (work ?L)) \<subseteq> fst ` set (vanguardOrphans (work st))
              \<union> {fromS + of_nat j | j. j < n \<and> vans ! j \<noteq> None \<and> pans ! j = None}"
    and po: "fst ` set (pandoraOrphans (work ?L)) \<subseteq> fst ` set (pandoraOrphans (work st))
              \<union> {fromS + of_nat j | j. j < n \<and> vans ! j = None \<and> pans ! j \<noteq> None}"
    and fs: "fromSlot (work ?L) = fromSlot (work st)"
    and isr: "invalidationStartRealmSlot (work ?L) = invalidationStartRealmSlot (work st)"
    by auto
  have step: "verifyLoop fromS pans 0 (take (Suc n) vans) st =
           (if chainErr (errs ?L) then ?L else snd (verifySlot ?s (vans ! n) (pans ! n) ?L))"
    using assms(1) n by (rule verifyLoop_take_Suc)
  have cs': "\<forall>c\<in>set cs. verifiedCall fromS vans pans (Suc n) c"
  proof
    fix c assume "c \<in> set cs"
    with cs(2) have "verifiedCall fromS vans pans n c" by simp
    then show "verifiedCall fromS vans pans (Suc n) c" by (rule verifiedCall_mono) simp
  qed
  show ?case
  proof (cases "chainErr (errs ?L)")
    case True
    with cs(1) cs' step ps vo po fs isr show ?thesis
      by (simp del: take_Suc) (blast intro: less_SucI)
  next
    case False
    show ?thesis
    proof (cases "vans ! n")
      case vNone: None
      show ?thesis
      proof (cases "pans ! n")
        case None
        with cs(1) cs' False step ps vo po fs isr vNone show ?thesis
          by (simp del: take_Suc add: verifySlot_unpaired verifySlot_work) (blast intro: less_SucI)
      next
        case (Some p)
        with cs(1) cs' False step ps vo po fs isr vNone show ?thesis
          by (simp del: take_Suc add: verifySlot_unpaired verifySlot_work dom_update)
            (blast intro: less_SucI)
      qed
    next
      case vSome: (Some v)
      show ?thesis
      proof (cases "pans ! n")
        case None
        with cs(1) cs' False step ps vo po fs isr vSome show ?thesis
          by (simp del: take_Suc add: verifySlot_unpaired verifySlot_work dom_update)
            (blast intro: less_SucI)
      next
        case (Some p)
        let ?V = "VanSave ?s \<lparr>HeaderHash = HeaderHash v, Status = Verified\<rparr>"
        let ?P = "PanSave ?s \<lparr>HeaderHash = HeaderHash p, Status = Verified\<rparr>"
        obtain new where new: "db (snd (verifySlot ?s (Some v) (Some p) ?L)) = replay new (db ?L)"
          "set new \<subseteq> {?V, ?P, RealmSave ?s}"
          by (cases "fst (verifySlot ?s (Some v) (Some p) ?L)")
            (auto simp: verifySlot_paired split: if_splits)
        have w: "work (snd (verifySlot ?s (Some v) (Some p) ?L)) = work ?L"
          by (simp add: verifySlot_work)
        have d: "db (verifyLoop fromS pans 0 (take (Suc n) vans) st) = replay (cs @ new) (db st)"
          using step False vSome Some new(1) cs(1) by (simp del: take_Suc add: replay_append)
        have "\<forall>c\<in>set new. verifiedCall fromS vans pans (Suc n) c"
        proof
          fix c assume "c \<in> set new"
          with new(2) have "c = ?V \<or> c = ?P \<or> c = RealmSave ?s" by auto
          with vSome Some show "verifiedCall fromS vans pans (Suc n) c"
            unfolding verifiedCall_def by (intro exI [of _ n]) auto
        qed
        with cs' d have D: "\<exists>cs. db (verifyLoop fromS pans 0 (take (Suc n) vans) st) = replay cs (db st)
            \<and> (\<forall>c\<in>set cs. verifiedCall fromS vans pans (Suc n) c)"
          by (intro exI [of _ "cs @ new"]) auto
        have W: "work (verifyLoop fromS pans 0 (take (Suc n) vans) st) = work ?L"
          using step False vSome Some w by (simp del: take_Suc)
        from ps vo po fs isr show ?thesis
          unfolding W by (intro conjI D) (blast intro: less_SucI)+
      qed
    qed
  qed
qed

lemma verifySlot_work_mono:
  "set (possibleSkippedPair (work st)) \<subseteq> set (possibleSkippedPair (work (snd (verifySlot s v p st))))"
  "fst ` set (vanguardOrphans (work st)) \<subseteq> fst ` set (vanguardOrphans (work (snd (verifySlot s v p st))))"
  "fst ` set (pandoraOrphans (work st)) \<subseteq> fst ` set (pandoraOrphans (work (snd (verifySlot s v p st))))"
  by (cases v; cases p; auto simp: verifySlot_work dom_update)+

text \<open>What the loop has done after its first \<open>n\<close> iterations, at least, when no chain
  write has failed.\<close>

lemma verifyLoop_lower:
  assumes "\<not> chainErr (errs st)" and "n \<le> length vans" and "n \<le> length pans"
    and "\<not> chainErr (errs (verifyLoop fromS pans 0 (take n vans) st))" and "j < n"
  shows "(vans ! j = None \<and> pans ! j = None \<longrightarrow>
            Some \<lparr>Slot = fromS + of_nat j, VanguardHash = None, PandoraHashes = []\<rparr>
              \<in> set (possibleSkippedPair (work (verifyLoop fromS pans 0 (take n vans) st))))
       \<and> (vans ! j \<noteq> None \<and> pans ! j = None \<longrightarrow>
            fromS + of_nat j \<in> fst ` set (vanguardOrphans (work (verifyLoop fromS pans 0 (take n vans) st))))
       \<and> (vans ! j = None \<and> pans ! j \<noteq> None \<longrightarrow>
            fromS + of_nat j \<in> fst ` set (pandoraOrphans (work (verifyLoop fromS pans 0 (take n vans) st))))"
  using assms(2-5)
proof (induction n)
  case 0
  then show ?case by simp
next
  case (Suc n)
  let ?L = "verifyLoop fromS pans 0 (take n vans) st"
  let ?s = "fromS + of_nat n"
  let ?S = "snd (verifySlot ?s (vans ! n) (pans ! n) ?L)"
  from Suc.prems have n: "n < length vans" "n < length pans" by simp_all
  have ok: "\<not> chainErr (errs ?L)"
    using verifyLoop_reached [OF assms(1) Suc.prems(1,2) _ Suc.prems(3), of n] by simp
  have step: "verifyLoop fromS pans 0 (take (Suc n) vans) st = ?S"
    using verifyLoop_take_Suc [OF assms(1) n, of fromS] ok by simp
  show ?case
  proof (cases "j = n")
    case True
    show ?thesis unfolding step True
      by (cases "vans ! n"; cases "pans ! n") (auto simp: verifySlot_work dom_update)
  next
    case False
    with Suc.prems have "j < n" by simp
    with Suc.IH n ok have IH:
      "vans ! j = None \<and> pans ! j = None \<longrightarrow>
            Some \<lparr>Slot = fromS + of_nat j, VanguardHash = None, PandoraHashes = []\<rparr>
              \<in> set (possibleSkippedPair (work ?L))"
      "vans ! j \<noteq> None \<and> pans ! j = None \<longrightarrow>
            fromS + of_nat j \<in> fst ` set (vanguardOrphans (work ?L))"
      "vans ! j = None \<and> pans ! j \<noteq> None \<longrightarrow>
            fromS + of_nat j \<in> fst ` set (pandoraOrphans (work ?L))"
      by simp_all
    show ?thesis unfolding step
      using IH verifySlot_work_mono [of ?L ?s "vans ! n" "pans ! n"] by blast
  qed
qed

lemma anyErr_chainErr: "\<not> anyErr e \<Longrightarrow> \<not> chainErr e"
  by (simp add: anyErr_def chainErr_def)

lemma verifySlot_noFaults:
  assumes "faults (db st) = noFaults" and "\<not> anyErr (errs st)"
  shows "\<not> fst (verifySlot s v p st)" and "\<not> anyErr (errs (snd (verifySlot s v p st)))"
  using assms
  by (cases v; cases p; simp add: verifySlot_paired verifySlot_unpaired noFaults_def anyErr_def)+

lemma verifySlot_faults: "faults (db (snd (verifySlot s v p st))) = faults (db st)"
  by (cases v; cases p) (simp_all add: verifySlot_paired verifySlot_unpaired faults_replay)

lemma verifyLoop_noFaults:
  assumes "faults (db st) = noFaults" and "\<not> anyErr (errs st)"
  shows "\<not> anyErr (errs (verifyLoop fromS pans k xs st))"
  using assms
proof (induction xs arbitrary: k st)
  case Nil
  then show ?case by simp
next
  case (Cons x xs)
  let ?r = "verifySlot (fromS + of_nat k) x (pans ! k) st"
  have "\<not> fst ?r" "\<not> anyErr (errs (snd ?r))" "faults (db (snd ?r)) = noFaults"
    using Cons.prems by (simp_all add: verifySlot_noFaults verifySlot_faults)
  then show ?case using Cons.IH [of "snd ?r" "Suc k"] Cons.prems(2)
    by (simp add: case_prod_beta)
qed

section \<open>The steps after the verification loop\<close>

lemma markPandoraOrphans_effect:
  "db (markPandoraOrphans ks st)
     = replay (map (\<lambda>k. PanSave k \<lparr>HeaderHash = 0, Status = Skipped\<rparr>) ks) (db st)
   \<and> work (markPandoraOrphans ks st) = work st
   \<and> (faults (db st) = noFaults \<and> \<not> anyErr (errs st) \<longrightarrow> \<not> anyErr (errs (markPandoraOrphans ks st)))"
proof (induction ks arbitrary: st)
  case Nil
  then show ?case by (simp add: replay_Nil)
next
  case (Cons k ks)
  show ?case
    using Cons.IH [of "st\<lparr>db := snd (SavePandoraHeaderHash k \<lparr>HeaderHash = 0, Status = Skipped\<rparr> (db st)),
        errs := (errs st)\<lparr>pandoraErr := fst (SavePandoraHeaderHash k \<lparr>HeaderHash = 0, Status = Skipped\<rparr> (db st))\<rparr>\<rparr>"]
    by (simp add: case_prod_beta Save_replay Save_fst replay_replay faults_replay anyErr_def noFaults_def)
qed

lemma markVanguardOrphans_effect:
  "db (markVanguardOrphans ks st)
     = replay (map (\<lambda>k. VanSave k \<lparr>HeaderHash = 0, Status = Skipped\<rparr>) ks) (db st)
   \<and> work (markVanguardOrphans ks st) = work st
   \<and> (faults (db st) = noFaults \<and> \<not> anyErr (errs st) \<longrightarrow> \<not> anyErr (errs (markVanguardOrphans ks st)))"
proof (induction ks arbitrary: st)
  case Nil
  then show ?case by (simp add: replay_Nil)
next
  case (Cons k ks)
  show ?case
    using Cons.IH [of "st\<lparr>db := snd (SaveVanguardHeaderHash k \<lparr>HeaderHash = 0, Status = Skipped\<rparr> (db st)),
        errs := (errs st)\<lparr>vanguardErr := fst (SaveVanguardHeaderHash k \<lparr>HeaderHash = 0, Status = Skipped\<rparr> (db st))\<rparr>\<rparr>"]
    by (simp add: case_prod_beta Save_replay Save_fst replay_replay faults_replay anyErr_def noFaults_def)
qed

lemma pendingPairsLoop_hashfree:
  "\<forall>pair\<in>set pairs. VanguardHash pair = None \<and> PandoraHashes pair = [] \<Longrightarrow>
     pendingPairsLoop pairs st = st"
  by (induction pairs arbitrary: st) (simp_all add: savePendingVanguard_def savePendingPandora_def)

lemma skipCall_mono: "skipCall W c \<Longrightarrow> W \<subseteq> W' \<Longrightarrow> skipCall W' c"
  by (cases c) (auto simp: skipCall_def)

lemma skippedPairsLoop_effect:
  "\<exists>cs. db (snd (skippedPairsLoop latest ps pend st)) = replay cs (db st)
      \<and> (\<forall>c\<in>set cs. skipCall {t. \<not> latest < t} c)
      \<and> work (snd (skippedPairsLoop latest ps pend st)) = work st
      \<and> set (fst (skippedPairsLoop latest ps pend st))
           \<subseteq> set pend \<union> {pair. Some pair \<in> set ps \<and> latest < Slot pair}
      \<and> (\<not> chainErr (errs (snd (skippedPairsLoop latest ps pend st))) \<longrightarrow>
           (\<forall>pair. Some pair \<in> set ps \<and> \<not> latest < Slot pair \<longrightarrow>
              VanSave (Slot pair) \<lparr>HeaderHash = 0, Status = Skipped\<rparr> \<in> set cs
            \<and> PanSave (Slot pair) \<lparr>HeaderHash = 0, Status = Skipped\<rparr> \<in> set cs))
      \<and> (faults (db st) = noFaults \<and> \<not> anyErr (errs st) \<longrightarrow>
           \<not> anyErr (errs (snd (skippedPairsLoop latest ps pend st))))"
proof (induction ps arbitrary: pend st)
  case Nil
  have "db st = replay [] (db st)" by (simp add: replay_Nil)
  then show ?case by (intro exI [of _ "[]"]) simp
next
  case (Cons x ps)
  show ?case
  proof (cases x)
    case None
    from Cons.IH [of pend st] obtain cs where
      "db (snd (skippedPairsLoop latest ps pend st)) = replay cs (db st)"
      "\<forall>c\<in>set cs. skipCall {t. \<not> latest < t} c"
      "work (snd (skippedPairsLoop latest ps pend st)) = work st"
      "set (fst (skippedPairsLoop latest ps pend st))
           \<subseteq> set pend \<union> {pair. Some pair \<in> set ps \<and> latest < Slot pair}"
      "\<not> chainErr (errs (snd (skippedPairsLoop latest ps pend st))) \<longrightarrow>
           (\<forall>pair. Some pair \<in> set ps \<and> \<not> latest < Slot pair \<longrightarrow>
              VanSave (Slot pair) \<lparr>HeaderHash = 0, Status = Skipped\<rparr> \<in> set cs
            \<and> PanSave (Slot pair) \<lparr>HeaderHash = 0, Status = Skipped\<rparr> \<in> set cs)"
      "faults (db st) = noFaults \<and> \<not> anyErr (errs st) \<longrightarrow>
           \<not> anyErr (errs (snd (skippedPairsLoop latest ps pend st)))"
      by blast
    then show ?thesis unfolding None
      by (intro exI [of _ cs]) auto
  next
    case (Some pair)
    show ?thesis
    proof (cases "latest < Slot pair")
      case True
      from Cons.IH [of "pend @ [pair]" st] obtain cs where
        "db (snd (skippedPairsLoop latest ps (pend @ [pair]) st)) = replay cs (db st)"
        "\<forall>c\<in>set cs. skipCall {t. \<not> latest < t} c"
        "work (snd (skippedPairsLoop latest ps (pend @ [pair]) st)) = work st"
        "set (fst (skippedPairsLoop latest ps (pend @ [pair]) st))
             \<subseteq> set (pend @ [pair]) \<union> {pair. Some pair \<in> set ps \<and> latest < Slot pair}"
        "\<not> chainErr (errs (snd (skippedPairsLoop latest ps (pend @ [pair]) st))) \<longrightarrow>
             (\<forall>pair. Some pair \<in> set ps \<and> \<not> latest < Slot pair \<longrightarrow>
                VanSave (Slot pair) \<lparr>HeaderHash = 0, Status = Skipped\<rparr> \<in> set cs
              \<and> PanSave (Slot pair) \<lparr>HeaderHash = 0, Status = Skipped\<rparr> \<in> set cs)"
        "faults (db st) = noFaults \<and> \<not> anyErr (errs st) \<longrightarrow>
             \<not> anyErr (errs (snd (skippedPairsLoop latest ps (pend @ [pair]) st)))"
        by blast
      with True show ?thesis unfolding Some
        by (intro exI [of _ cs]) auto
    next
      case False
      let ?V = "VanSave (Slot pair) \<lparr>HeaderHash = 0, Status = Skipped\<rparr>"
      let ?P = "PanSave (Slot pair) \<lparr>HeaderHash = 0, Status = Skipped\<rparr>"
      let ?verr = "faults (db st) (calls (db st)) ?V"
      let ?perr = "faults (db st) (calls (db st) @ [?V]) ?P"
      let ?st = "st\<lparr>db := replay [?V, ?P] (db st),
                     errs := (errs st)\<lparr>vanguardErr := ?verr, pandoraErr := ?perr\<rparr>\<rparr>"
      have unfold: "skippedPairsLoop latest (Some pair # ps) pend st =
          (if ?verr \<noteq> None \<or> ?perr \<noteq> None then (pend, ?st)
           else skippedPairsLoop latest ps pend ?st)"
        using False
        by (simp add: case_prod_beta Save_replay Save_fst calls_replay faults_replay replay_replay)
      have VP: "\<forall>c\<in>set [?V, ?P]. skipCall {t. \<not> latest < t} c"
        using False by (simp add: skipCall_def)
      show ?thesis
      proof (cases "?verr \<noteq> None \<or> ?perr \<noteq> None")
        case True
        then have "chainErr (errs ?st)" by (simp add: chainErr_def)
        moreover from True have "faults (db st) \<noteq> noFaults" by (auto simp: noFaults_def)
        ultimately show ?thesis unfolding Some unfold using True VP
          by (intro exI [of _ "[?V, ?P]"]) simp
      next
        case ok: False
        from Cons.IH [of pend ?st] obtain cs where cs:
          "db (snd (skippedPairsLoop latest ps pend ?st)) = replay cs (db ?st)"
          "\<forall>c\<in>set cs. skipCall {t. \<not> latest < t} c"
          "work (snd (skippedPairsLoop latest ps pend ?st)) = work ?st"
          "set (fst (skippedPairsLoop latest ps pend ?st))
               \<subseteq> set pend \<union> {pair. Some pair \<in> set ps \<and> latest < Slot pair}"
          "\<not> chainErr (errs (snd (skippedPairsLoop latest ps pend ?st))) \<longrightarrow>
               (\<forall>pair. Some pair \<in> set ps \<and> \<not> latest < Slot pair \<longrightarrow>
                  VanSave (Slot pair) \<lparr>HeaderHash = 0, Status = Skipped\<rparr> \<in> set cs
                \<and> PanSave (Slot pair) \<lparr>HeaderHash = 0, Status = Skipped\<rparr> \<in> set cs)"
          "faults (db ?st) = noFaults \<and> \<not> anyErr (errs ?st) \<longrightarrow>
               \<not> anyErr (errs (snd (skippedPairsLoop latest ps pend ?st)))"
          by blast
        have d: "db (snd (skippedPairsLoop latest ps pend ?st)) = replay ([?V, ?P] @ cs) (db st)"
          using cs(1) by (simp add: replay_replay)
        have nf: "faults (db st) = noFaults \<and> \<not> anyErr (errs st) \<longrightarrow>
                    faults (db ?st) = noFaults \<and> \<not> anyErr (errs ?st)"
          using ok by (simp add: faults_replay anyErr_def noFaults_def)
        show ?thesis unfolding Some unfold using ok d cs(2-6) VP nf
          by (intro exI [of _ "[?V, ?P] @ cs"]) auto
      qed
    qed
  qed
qed

lemma fillVanguardGaps_effect:
  "\<exists>cs. db (fillVanguardGaps fromS latest k batch st) = replay cs (db st)
      \<and> (\<forall>c\<in>set cs. skipCall {t. \<not> latest < t} c)
      \<and> work (fillVanguardGaps fromS latest k batch st) = work st
      \<and> (faults (db st) = noFaults \<and> \<not> anyErr (errs st) \<longrightarrow>
           \<not> anyErr (errs (fillVanguardGaps fromS latest k batch st)))"
proof (induction batch arbitrary: k st)
  case Nil
  have "db st = replay [] (db st)" by (simp add: replay_Nil)
  then show ?case by (intro exI [of _ "[]"]) simp
next
  case (Cons x batch)
  show ?case
  proof (cases "x = None \<and> \<not> latest < fromS + of_nat k")
    case False
    from Cons.IH [of "Suc k" st] obtain cs where
      "db (fillVanguardGaps fromS latest (Suc k) batch st) = replay cs (db st)"
      "\<forall>c\<in>set cs. skipCall {t. \<not> latest < t} c"
      "work (fillVanguardGaps fromS latest (Suc k) batch st) = work st"
      "faults (db st) = noFaults \<and> \<not> anyErr (errs st) \<longrightarrow>
           \<not> anyErr (errs (fillVanguardGaps fromS latest (Suc k) batch st))"
      by blast
    with False show ?thesis
      by (cases x) (intro exI [of _ cs]; simp)+
  next
    case True
    let ?V = "VanSave (fromS + of_nat k) \<lparr>HeaderHash = EmptyHash, Status = Skipped\<rparr>"
    let ?st = "st\<lparr>db := replay [?V] (db st),
                   errs := (errs st)\<lparr>vanguardErr := faults (db st) (calls (db st)) ?V\<rparr>\<rparr>"
    from Cons.IH [of "Suc k" ?st] obtain cs where cs:
      "db (fillVanguardGaps fromS latest (Suc k) batch ?st) = replay cs (db ?st)"
      "\<forall>c\<in>set cs. skipCall {t. \<not> latest < t} c"
      "work (fillVanguardGaps fromS latest (Suc k) batch ?st) = work ?st"
      "faults (db ?st) = noFaults \<and> \<not> anyErr (errs ?st) \<longrightarrow>
           \<not> anyErr (errs (fillVanguardGaps fromS latest (Suc k) batch ?st))"
      by blast
    have unfold: "fillVanguardGaps fromS latest k (x # batch) st =
        fillVanguardGaps fromS latest (Suc k) batch ?st"
      using True by (simp add: case_prod_beta Save_replay Save_fst)
    have V: "skipCall {t. \<not> latest < t} ?V" using True by (simp add: skipCall_def EmptyHash_def)
    have nf: "faults (db st) = noFaults \<and> \<not> anyErr (errs st) \<longrightarrow>
                faults (db ?st) = noFaults \<and> \<not> anyErr (errs ?st)"
      by (simp add: faults_replay anyErr_def noFaults_def)
    have "db (fillVanguardGaps fromS latest (Suc k) batch ?st) = replay (?V # cs) (db st)"
      using cs(1) by (simp add: replay_replay)
    with cs(2-4) V nf show ?thesis unfolding unfold
      by (intro exI [of _ "?V # cs"]) auto
  qed
qed

lemma fillPandoraGaps_effect:
  "\<exists>cs. db (fillPandoraGaps fromS latest k batch st) = replay cs (db st)
      \<and> (\<forall>c\<in>set cs. skipCall {t. \<not> latest < t} c)
      \<and> work (fillPandoraGaps fromS latest k batch st) = work st
      \<and> (faults (db st) = noFaults \<and> \<not> anyErr (errs st) \<longrightarrow>
           \<not> anyErr (errs (fillPandoraGaps fromS latest k batch st)))"
proof (induction batch arbitrary: k st)
  case Nil
  have "db st = replay [] (db st)" by (simp add: replay_Nil)
  then show ?case by (intro exI [of _ "[]"]) simp
next
  case (Cons x batch)
  show ?case
  proof (cases "x = None \<and> \<not> latest < fromS + of_nat k")
    case False
    from Cons.IH [of "Suc k" st] obtain cs where
      "db (fillPandoraGaps fromS latest (Suc k) batch st) = replay cs (db st)"
      "\<forall>c\<in>set cs. skipCall {t. \<not> latest < t} c"
      "work (fillPandoraGaps fromS latest (Suc k) batch st) = work st"
      "faults (db st) = noFaults \<and> \<not> anyErr (errs st) \<longrightarrow>
           \<not> anyErr (errs (fillPandoraGaps fromS latest (Suc k) batch st))"
      by blast
    with False show ?thesis
      by (cases x) (intro exI [of _ cs]; simp)+
  next
    case True
    let ?V = "PanSave (fromS + of_nat k) \<lparr>HeaderHash = EmptyHash, Status = Skipped\<rparr>"
    let ?st = "st\<lparr>db := replay [?V] (db st),
                   errs := (errs st)\<lparr>pandoraErr := faults (db st) (calls (db st)) ?V\<rparr>\<rparr>"
    from Cons.IH [of "Suc k" ?st] obtain cs where cs:
      "db (fillPandoraGaps fromS latest (Suc k) batch ?st) = replay cs (db ?st)"
      "\<forall>c\<in>set cs. skipCall {t. \<not> latest < t} c"
      "work (fillPandoraGaps fromS latest (Suc k) batch ?st) = work ?st"
      "faults (db ?st) = noFaults \<and> \<not> anyErr (errs ?st) \<longrightarrow>
           \<not> anyErr (errs (fillPandoraGaps fromS latest (Suc k) batch ?st))"
      by blast
    have unfold: "fillPandoraGaps fromS latest k (x # batch) st =
        fillPandoraGaps fromS latest (Suc k) batch ?st"
      using True by (simp add: case_prod_beta Save_replay Save_fst)
    have V: "skipCall {t. \<not> latest < t} ?V" using True by (simp add: skipCall_def EmptyHash_def)
    have nf: "faults (db st) = noFaults \<and> \<not> anyErr (errs st) \<longrightarrow>
                faults (db ?st) = noFaults \<and> \<not> anyErr (errs ?st)"
      by (simp add: faults_replay anyErr_def noFaults_def)
    have "db (fillPandoraGaps fromS latest (Suc k) batch ?st) = replay (?V # cs) (db st)"
      using cs(1) by (simp add: replay_replay)
    with cs(2-4) V nf show ?thesis unfolding unfold
      by (intro exI [of _ "?V # cs"]) auto
  qed
qed

lemma newCalls_replay: "newCalls d (replay cs d) = cs"
  by (simp add: newCalls_def calls_replay)

lemma fillGaps_effect:
  "\<exists>cs. db (snd (fillGaps latest rng st)) = replay cs (db st)
      \<and> (\<forall>c\<in>set cs. skipCall {t. \<not> latest < t} c)
      \<and> (faults (db st) = noFaults \<and> \<not> anyErr (errs st) \<longrightarrow> fst (fillGaps latest rng st) = Returns)"
proof -
  let ?start = "invalidationStartRealmSlot (work st)"
  let ?VR = "VanRange ?start rng"
  let ?PR = "PanRange ?start rng"
  let ?verr = "faults (db st) (calls (db st)) ?VR"
  let ?perr = "faults (db st) (calls (db st) @ [?VR]) ?PR"
  define vb where "vb = fst (fst (VanguardHeaderHashes ?start rng (db st)))"
  define pb where "pb = fst (fst (PandoraHeaderHashes ?start rng (replay [?VR] (db st))))"
  define st1 where "st1 = st\<lparr>db := replay [?VR, ?PR] (db st),
                  errs := (errs st)\<lparr>vanguardErr := ?verr, pandoraErr := ?perr\<rparr>\<rparr>"
  define st2 where "st2 = fillVanguardGaps (fromSlot (work st)) latest 0 vb st1"
  define st3 where "st3 = fillPandoraGaps (fromSlot (work st)) latest 0 pb st2"
  have unfold: "fillGaps latest rng st =
      (if chainErr (errs st1) then (SendsErrors (errs st1), st1)
       else if chainErr (errs st3) then (SendsErrors (errs st3), st3) else (Returns, st3))"
    unfolding st3_def st2_def st1_def vb_def pb_def
    by (simp add: fillGaps_def case_prod_beta Range_replay Range_fst(1,2) calls_replay
        faults_replay replay_replay Let_def)
  have d1: "db st1 = replay [?VR, ?PR] (db st)" by (simp add: st1_def)
  have R: "\<forall>c\<in>set [?VR, ?PR]. skipCall {t. \<not> latest < t} c" by (simp add: skipCall_def)
  obtain cs1 where cs1: "db st2 = replay cs1 (db st1)"
      "\<forall>c\<in>set cs1. skipCall {t. \<not> latest < t} c"
      "faults (db st1) = noFaults \<and> \<not> anyErr (errs st1) \<longrightarrow> \<not> anyErr (errs st2)"
    unfolding st2_def
    using fillVanguardGaps_effect [of "fromSlot (work st)" latest 0 vb st1] by blast
  obtain cs2 where cs2: "db st3 = replay cs2 (db st2)"
      "\<forall>c\<in>set cs2. skipCall {t. \<not> latest < t} c"
      "faults (db st2) = noFaults \<and> \<not> anyErr (errs st2) \<longrightarrow> \<not> anyErr (errs st3)"
    unfolding st3_def
    using fillPandoraGaps_effect [of "fromSlot (work st)" latest 0 pb st2] by blast
  have d3: "db st3 = replay ([?VR, ?PR] @ cs1 @ cs2) (db st)"
    using cs1(1) cs2(1) d1 by (simp add: replay_replay)
  have nf: "\<not> anyErr (errs st1) \<and> \<not> anyErr (errs st3)"
    if a: "faults (db st) = noFaults" "\<not> anyErr (errs st)"
  proof -
    have f1: "faults (db st1) = noFaults" using a(1) d1 by (simp add: faults_replay)
    have e1: "\<not> anyErr (errs st1)" using a by (simp add: st1_def anyErr_def noFaults_def)
    with f1 cs1(3) have e2: "\<not> anyErr (errs st2)" by blast
    have "faults (db st2) = noFaults" using f1 cs1(1) by (simp add: faults_replay)
    with e2 cs2(3) have "\<not> anyErr (errs st3)" by blast
    with e1 show ?thesis by blast
  qed
  show ?thesis
  proof (cases "chainErr (errs st1)")
    case True
    with d1 R nf show ?thesis unfolding unfold
      by (intro exI [of _ "[?VR, ?PR]"]) (auto dest: anyErr_chainErr)
  next
    case False
    have "\<forall>c\<in>set ([?VR, ?PR] @ cs1 @ cs2). skipCall {t. \<not> latest < t} c"
      using R cs1(2) cs2(2) by auto
    with False d3 nf show ?thesis unfolding unfold
      by (intro exI [of _ "[?VR, ?PR] @ cs1 @ cs2"]) (auto dest: anyErr_chainErr)
  qed
qed

lemma finalizePairs_effect:
  assumes "hashfree (possibleSkippedPair (work st))"
  shows "\<exists>cs. db (snd (finalizePairs latest rng st)) = replay cs (db st)
      \<and> (\<forall>c\<in>set cs. skipCall {t. \<not> latest < t} c)
      \<and> (faults (db st) = noFaults \<and> \<not> anyErr (errs st) \<longrightarrow>
           fst (finalizePairs latest rng st) = Returns
         \<and> (\<forall>pair. Some pair \<in> set (possibleSkippedPair (work st)) \<and> \<not> latest < Slot pair \<longrightarrow>
              VanSave (Slot pair) \<lparr>HeaderHash = 0, Status = Skipped\<rparr> \<in> set cs
            \<and> PanSave (Slot pair) \<lparr>HeaderHash = 0, Status = Skipped\<rparr> \<in> set cs))"
proof -
  let ?R = "skippedPairsLoop latest (possibleSkippedPair (work st)) [] st"
  obtain cs1 where cs1: "db (snd ?R) = replay cs1 (db st)"
      "\<forall>c\<in>set cs1. skipCall {t. \<not> latest < t} c"
      "work (snd ?R) = work st"
      "set (fst ?R) \<subseteq> set [] \<union> {pair. Some pair \<in> set (possibleSkippedPair (work st)) \<and> latest < Slot pair}"
      "\<not> chainErr (errs (snd ?R)) \<longrightarrow>
           (\<forall>pair. Some pair \<in> set (possibleSkippedPair (work st)) \<and> \<not> latest < Slot pair \<longrightarrow>
              VanSave (Slot pair) \<lparr>HeaderHash = 0, Status = Skipped\<rparr> \<in> set cs1
            \<and> PanSave (Slot pair) \<lparr>HeaderHash = 0, Status = Skipped\<rparr> \<in> set cs1)"
      "faults (db st) = noFaults \<and> \<not> anyErr (errs st) \<longrightarrow> \<not> anyErr (errs (snd ?R))"
    using skippedPairsLoop_effect [of latest "possibleSkippedPair (work st)" "[]" st] by blast
  have "\<forall>pair\<in>set (fst ?R). VanguardHash pair = None \<and> PandoraHashes pair = []"
    using cs1(4) assms by (auto simp: hashfree_def)
  then have pend: "pendingPairsLoop (fst ?R) (snd ?R) = snd ?R"
    by (rule pendingPairsLoop_hashfree)
  have unfold: "finalizePairs latest rng st =
      (if chainErr (errs (snd ?R)) then (SendsErrors (errs (snd ?R)), snd ?R)
       else fillGaps latest rng (snd ?R))"
    by (simp add: finalizePairs_def case_prod_beta pend Let_def)
  obtain cs2 where cs2: "db (snd (fillGaps latest rng (snd ?R))) = replay cs2 (db (snd ?R))"
      "\<forall>c\<in>set cs2. skipCall {t. \<not> latest < t} c"
      "faults (db (snd ?R)) = noFaults \<and> \<not> anyErr (errs (snd ?R)) \<longrightarrow>
         fst (fillGaps latest rng (snd ?R)) = Returns"
    using fillGaps_effect [of latest rng "snd ?R"] by blast
  have f: "faults (db (snd ?R)) = faults (db st)" using cs1(1) by (simp add: faults_replay)
  show ?thesis
  proof (cases "chainErr (errs (snd ?R))")
    case True
    with cs1(1,2,6) show ?thesis unfolding unfold
      by (intro exI [of _ cs1]) (auto dest: anyErr_chainErr)
  next
    case False
    have "db (snd (fillGaps latest rng (snd ?R))) = replay (cs1 @ cs2) (db st)"
      using cs1(1) cs2(1) by (simp add: replay_replay)
    moreover have "\<forall>c\<in>set (cs1 @ cs2). skipCall {t. \<not> latest < t} c"
      using cs1(2) cs2(2) by auto
    ultimately show ?thesis unfolding unfold using False cs1(5,6) cs2(3) f
      by (intro exI [of _ "cs1 @ cs2"]) auto
  qed
qed

lemma finalizeOrphans_effect:
  assumes "hashfree (possibleSkippedPair (work st))"
    and "set (rangeOrder (map fst (pandoraOrphans (work st)))) = fst ` set (pandoraOrphans (work st))"
    and "set (rangeOrder (map fst (vanguardOrphans (work st)))) = fst ` set (vanguardOrphans (work st))"
  shows "\<exists>cs. db (snd (finalizeOrphans rangeOrder latest rng st)) = replay cs (db st)
      \<and> (\<forall>c\<in>set cs. skipCall (fst ` set (pandoraOrphans (work st))
                             \<union> fst ` set (vanguardOrphans (work st)) \<union> {t. \<not> latest < t}) c)
      \<and> (\<forall>k\<in>fst ` set (pandoraOrphans (work st)).
            PanSave k \<lparr>HeaderHash = 0, Status = Skipped\<rparr> \<in> set cs)
      \<and> (\<forall>k\<in>fst ` set (vanguardOrphans (work st)).
            VanSave k \<lparr>HeaderHash = 0, Status = Skipped\<rparr> \<in> set cs)
      \<and> (faults (db st) = noFaults \<and> \<not> anyErr (errs st) \<longrightarrow>
           fst (finalizeOrphans rangeOrder latest rng st) = Returns
         \<and> (\<forall>pair. Some pair \<in> set (possibleSkippedPair (work st)) \<and> \<not> latest < Slot pair \<longrightarrow>
              VanSave (Slot pair) \<lparr>HeaderHash = 0, Status = Skipped\<rparr> \<in> set cs
            \<and> PanSave (Slot pair) \<lparr>HeaderHash = 0, Status = Skipped\<rparr> \<in> set cs))"
proof -
  let ?W = "fst ` set (pandoraOrphans (work st)) \<union> fst ` set (vanguardOrphans (work st))
              \<union> {t. \<not> latest < t}"
  define pk where "pk = rangeOrder (map fst (pandoraOrphans (work st)))"
  define vk where "vk = rangeOrder (map fst (vanguardOrphans (work st)))"
  define cp where "cp = map (\<lambda>k. PanSave k \<lparr>HeaderHash = 0, Status = Skipped\<rparr>) pk"
  define cv where "cv = map (\<lambda>k. VanSave k \<lparr>HeaderHash = 0, Status = Skipped\<rparr>) vk"
  define st1 where "st1 = markPandoraOrphans pk st"
  define st2 where "st2 = markVanguardOrphans vk st1"
  have pk: "set pk = fst ` set (pandoraOrphans (work st))" using assms(2) by (simp add: pk_def)
  have vk: "set vk = fst ` set (vanguardOrphans (work st))" using assms(3) by (simp add: vk_def)
  have m1: "db st1 = replay cp (db st)" "work st1 = work st"
      "faults (db st) = noFaults \<and> \<not> anyErr (errs st) \<longrightarrow> \<not> anyErr (errs st1)"
    using markPandoraOrphans_effect [of pk st] by (simp_all add: st1_def cp_def)
  have m2: "db st2 = replay cv (db st1)" "work st2 = work st1"
      "faults (db st1) = noFaults \<and> \<not> anyErr (errs st1) \<longrightarrow> \<not> anyErr (errs st2)"
    using markVanguardOrphans_effect [of vk st1] by (simp_all add: st2_def cv_def)
  have d2: "db st2 = replay (cp @ cv) (db st)" using m1(1) m2(1) by (simp add: replay_replay)
  have w2: "work st2 = work st" using m1(2) m2(2) by simp
  have unfold: "finalizeOrphans rangeOrder latest rng st =
      (if chainErr (errs st2) then (SendsErrors (errs st2), st2)
       else finalizePairs latest rng st2)"
    by (simp add: finalizeOrphans_def Let_def st2_def st1_def pk_def vk_def)
  have up: "\<forall>c\<in>set (cp @ cv). skipCall ?W c"
    using pk vk by (force simp: cp_def cv_def skipCall_def)
  have lowp: "\<forall>k\<in>fst ` set (pandoraOrphans (work st)).
            PanSave k \<lparr>HeaderHash = 0, Status = Skipped\<rparr> \<in> set (cp @ cv)"
    using pk by (auto simp: cp_def)
  have lowv: "\<forall>k\<in>fst ` set (vanguardOrphans (work st)).
            VanSave k \<lparr>HeaderHash = 0, Status = Skipped\<rparr> \<in> set (cp @ cv)"
    using vk by (auto simp: cv_def)
  have nf: "faults (db st2) = noFaults \<and> \<not> anyErr (errs st2)"
    if a: "faults (db st) = noFaults" "\<not> anyErr (errs st)"
  proof -
    have "faults (db st1) = noFaults" using a(1) m1(1) by (simp add: faults_replay)
    moreover from a m1(3) have "\<not> anyErr (errs st1)" by blast
    ultimately have "\<not> anyErr (errs st2)" using m2(3) by blast
    moreover have "faults (db st2) = noFaults" using a(1) d2 by (simp add: faults_replay)
    ultimately show ?thesis by blast
  qed
  show ?thesis
  proof (cases "chainErr (errs st2)")
    case True
    with d2 up lowp lowv nf show ?thesis unfolding unfold
      by (intro exI [of _ "cp @ cv"]) (auto dest: anyErr_chainErr)
  next
    case False
    have "hashfree (possibleSkippedPair (work st2))" using assms(1) w2 by simp
    from finalizePairs_effect [OF this, of latest rng] obtain cs where cs:
      "db (snd (finalizePairs latest rng st2)) = replay cs (db st2)"
      "\<forall>c\<in>set cs. skipCall {t. \<not> latest < t} c"
      "faults (db st2) = noFaults \<and> \<not> anyErr (errs st2) \<longrightarrow>
           fst (finalizePairs latest rng st2) = Returns
         \<and> (\<forall>pair. Some pair \<in> set (possibleSkippedPair (work st2)) \<and> \<not> latest < Slot pair \<longrightarrow>
              VanSave (Slot pair) \<lparr>HeaderHash = 0, Status = Skipped\<rparr> \<in> set cs
            \<and> PanSave (Slot pair) \<lparr>HeaderHash = 0, Status = Skipped\<rparr> \<in> set cs)"
      by blast
    have d: "db (snd (finalizePairs latest rng st2)) = replay ((cp @ cv) @ cs) (db st)"
      using cs(1) d2 by (simp add: replay_replay)
    have up': "\<forall>c\<in>set ((cp @ cv) @ cs). skipCall ?W c"
    proof
      fix c assume "c \<in> set ((cp @ cv) @ cs)"
      then consider "c \<in> set (cp @ cv)" | "c \<in> set cs" by auto
      then show "skipCall ?W c"
      proof cases
        case 1
        with up show ?thesis by blast
      next
        case 2
        with cs(2) have "skipCall {t. \<not> latest < t} c" by blast
        then show ?thesis by (rule skipCall_mono) blast
      qed
    qed
    have low: "fst (finalizePairs latest rng st2) = Returns
         \<and> (\<forall>pair. Some pair \<in> set (possibleSkippedPair (work st)) \<and> \<not> latest < Slot pair \<longrightarrow>
              VanSave (Slot pair) \<lparr>HeaderHash = 0, Status = Skipped\<rparr> \<in> set ((cp @ cv) @ cs)
            \<and> PanSave (Slot pair) \<lparr>HeaderHash = 0, Status = Skipped\<rparr> \<in> set ((cp @ cv) @ cs))"
      if a: "faults (db st) = noFaults" "\<not> anyErr (errs st)"
      using nf [OF a] cs(3) w2 by auto
    from False d up' lowp lowv low show ?thesis unfolding unfold
      by (intro exI [of _ "(cp @ cv) @ cs"]) auto
  qed
qed

lemma word_not_below_zero: "\<not> (x :: 64 word) < 0"
  by simp

lemma resolvePairs_effect:
  assumes "hashfree (possibleSkippedPair (work st))"
    and "set (rangeOrder (map fst (pandoraOrphans (work st)))) = fst ` set (pandoraOrphans (work st))"
    and "set (rangeOrder (map fst (vanguardOrphans (work st)))) = fst ` set (vanguardOrphans (work st))"
  shows "\<exists>cs. db (snd (resolvePairs rangeOrder st)) = replay cs (db st)
      \<and> (\<forall>c\<in>set cs. skipCall (fst ` set (pandoraOrphans (work st))
                \<union> fst ` set (vanguardOrphans (work st)) \<union> {t. \<not> realm (db st) < t}) c)
      \<and> (realm (db st) \<noteq> invalidationStartRealmSlot (work st) \<longrightarrow>
           (\<forall>k\<in>fst ` set (pandoraOrphans (work st)).
              PanSave k \<lparr>HeaderHash = 0, Status = Skipped\<rparr> \<in> set cs)
         \<and> (\<forall>k\<in>fst ` set (vanguardOrphans (work st)).
              VanSave k \<lparr>HeaderHash = 0, Status = Skipped\<rparr> \<in> set cs)
         \<and> (faults (db st) = noFaults \<and> \<not> anyErr (errs st) \<longrightarrow>
              (\<forall>pair. Some pair \<in> set (possibleSkippedPair (work st))
                    \<and> \<not> realm (db st) < Slot pair \<longrightarrow>
                 VanSave (Slot pair) \<lparr>HeaderHash = 0, Status = Skipped\<rparr> \<in> set cs
               \<and> PanSave (Slot pair) \<lparr>HeaderHash = 0, Status = Skipped\<rparr> \<in> set cs)))
      \<and> (faults (db st) = noFaults \<and> \<not> anyErr (errs st) \<longrightarrow>
           fst (resolvePairs rangeOrder st) = Returns)"
proof (cases "realm (db st) = invalidationStartRealmSlot (work st)")
  case True
  then have "resolvePairs rangeOrder st = (Returns, st)"
    by (simp add: resolvePairs_def LatestVerifiedRealmSlot_def)
  moreover have "db st = replay [] (db st)" by (simp add: replay_Nil)
  ultimately show ?thesis using True by (intro exI [of _ "[]"]) simp
next
  case False
  then have unfold: "resolvePairs rangeOrder st =
      finalizeOrphans rangeOrder (realm (db st))
        (realm (db st) - invalidationStartRealmSlot (work st)) st"
    by (simp add: resolvePairs_def LatestVerifiedRealmSlot_def Let_def)
  from finalizeOrphans_effect [OF assms, of "realm (db st)"
      "realm (db st) - invalidationStartRealmSlot (work st)"]
  show ?thesis unfolding unfold by blast
qed

section \<open>The whole commit step\<close>

lemma afterVerification_atIndex:
  "afterVerification d w =
     atIndex (min (length (vanguardHashes w)) (length (pandoraHashes w))) d w"
  unfolding afterVerification_def atIndex_def by (rule verifyLoop_full)

lemma handlePreparedWork_unfold:
  "handlePreparedWork rangeOrder d w =
     (if anyErr (errs (afterVerification d w))
      then (SendsErrors (errs (afterVerification d w)), afterVerification d w)
      else resolvePairs rangeOrder (afterVerification d w))"
  by (simp add: handlePreparedWork_def afterVerification_def Let_def)

lemma handlePreparedWork_effect:
  assumes "possibleSkippedPair w = []" and "pandoraOrphans w = []" and "vanguardOrphans w = []"
    and "\<forall>ks. set (rangeOrder ks) = set ks"
  shows "\<exists>cs1 cs2. db (afterVerification d w) = replay cs1 d
      \<and> (\<forall>c\<in>set cs1. verifiedCall (fromSlot w) (vanguardHashes w) (pandoraHashes w)
                          (min (length (vanguardHashes w)) (length (pandoraHashes w))) c)
      \<and> db (snd (handlePreparedWork rangeOrder d w)) = replay cs2 (db (afterVerification d w))
      \<and> (\<forall>c\<in>set cs2. skipCall
            ({fromSlot w + of_nat j | j. j < min (length (vanguardHashes w)) (length (pandoraHashes w))
                \<and> (vanguardHashes w ! j = None) \<noteq> (pandoraHashes w ! j = None)}
             \<union> {t. \<not> realm (db (afterVerification d w)) < t}) c)
      \<and> (\<not> anyErr (errs (afterVerification d w))
           \<and> realm (db (afterVerification d w)) \<noteq> invalidationStartRealmSlot w \<longrightarrow>
           (\<forall>j<min (length (vanguardHashes w)) (length (pandoraHashes w)).
              vanguardHashes w ! j \<noteq> None \<and> pandoraHashes w ! j = None \<longrightarrow>
                VanSave (fromSlot w + of_nat j) \<lparr>HeaderHash = 0, Status = Skipped\<rparr> \<in> set cs2)
         \<and> (\<forall>j<min (length (vanguardHashes w)) (length (pandoraHashes w)).
              vanguardHashes w ! j = None \<and> pandoraHashes w ! j \<noteq> None \<longrightarrow>
                PanSave (fromSlot w + of_nat j) \<lparr>HeaderHash = 0, Status = Skipped\<rparr> \<in> set cs2)
         \<and> (faults d = noFaults \<longrightarrow>
              (\<forall>j<min (length (vanguardHashes w)) (length (pandoraHashes w)).
                 vanguardHashes w ! j = None \<and> pandoraHashes w ! j = None
                 \<and> \<not> realm (db (afterVerification d w)) < fromSlot w + of_nat j \<longrightarrow>
                   VanSave (fromSlot w + of_nat j) \<lparr>HeaderHash = 0, Status = Skipped\<rparr> \<in> set cs2
                 \<and> PanSave (fromSlot w + of_nat j) \<lparr>HeaderHash = 0, Status = Skipped\<rparr> \<in> set cs2)))
      \<and> (faults d = noFaults \<longrightarrow>
           fst (handlePreparedWork rangeOrder d w) = Returns \<and> \<not> anyErr (errs (afterVerification d w)))"
proof -
  define n where "n = min (length (vanguardHashes w)) (length (pandoraHashes w))"
  define F where "F = fromSlot w"
  define vans where "vans = vanguardHashes w"
  define pans where "pans = pandoraHashes w"
  define st0 where "st0 = \<lparr>db = d, work = w,
      errs = \<lparr>vanguardErr = None, pandoraErr = None, realmErr = None\<rparr>\<rparr>"
  define A where "A = afterVerification d w"
  have A: "A = verifyLoop F pans 0 (take n vans) st0"
    unfolding A_def afterVerification_atIndex atIndex_def n_def F_def vans_def pans_def st0_def ..
  have e0: "\<not> chainErr (errs st0)" "\<not> anyErr (errs st0)"
    by (simp_all add: st0_def chainErr_def anyErr_def)
  have n: "n \<le> length vans" "n \<le> length pans" by (simp_all add: n_def vans_def pans_def)
  have s0: "db st0 = d" "possibleSkippedPair (work st0) = []"
      "vanguardOrphans (work st0) = []" "pandoraOrphans (work st0) = []"
      "fromSlot (work st0) = F" "invalidationStartRealmSlot (work st0) = invalidationStartRealmSlot w"
    using assms(1-3) by (simp_all add: st0_def F_def)
  note U = verifyLoop_upper [OF e0(1) n, of F, unfolded s0 A [symmetric]]
  from U obtain cs1 where cs1: "db A = replay cs1 d" "\<forall>c\<in>set cs1. verifiedCall F vans pans n c"
    by (elim conjE exE) (rule that)
  have ps: "set (possibleSkippedPair (work A))
            \<subseteq> {Some \<lparr>Slot = F + of_nat j, VanguardHash = None, PandoraHashes = []\<rparr> | j.
                   j < n \<and> vans ! j = None \<and> pans ! j = None}"
    using U by simp
  have vo: "fst ` set (vanguardOrphans (work A))
            \<subseteq> {F + of_nat j | j. j < n \<and> vans ! j \<noteq> None \<and> pans ! j = None}"
    using U by simp
  have po: "fst ` set (pandoraOrphans (work A))
            \<subseteq> {F + of_nat j | j. j < n \<and> vans ! j = None \<and> pans ! j \<noteq> None}"
    using U by simp
  have fs: "fromSlot (work A) = F"
    and isr: "invalidationStartRealmSlot (work A) = invalidationStartRealmSlot w"
    using U by simp_all
  let ?W = "{F + of_nat j | j. j < n \<and> (vans ! j = None) \<noteq> (pans ! j = None)}
             \<union> {t. \<not> realm (db A) < t}"
  have nf: "\<not> anyErr (errs A)" if "faults d = noFaults"
    unfolding A using verifyLoop_noFaults [of st0 F pans 0 "take n vans"] that e0(2)
    by (simp add: st0_def)
  have hf: "hashfree (possibleSkippedPair (work A))"
    unfolding hashfree_def
  proof (intro allI impI)
    fix pair assume "Some pair \<in> set (possibleSkippedPair (work A))"
    with ps have "Some pair \<in> {Some \<lparr>Slot = F + of_nat j, VanguardHash = None, PandoraHashes = []\<rparr> | j.
                   j < n \<and> vans ! j = None \<and> pans ! j = None}"
      by (rule subsetD)
    then obtain j where "Some pair = Some \<lparr>Slot = F + of_nat j, VanguardHash = None, PandoraHashes = []\<rparr>"
      by (elim CollectE exE conjE)
    then show "VanguardHash pair = None \<and> PandoraHashes pair = []" by simp
  qed
  have ro: "set (rangeOrder (map fst (pandoraOrphans (work A)))) = fst ` set (pandoraOrphans (work A))"
    "set (rangeOrder (map fst (vanguardOrphans (work A)))) = fst ` set (vanguardOrphans (work A))"
    using assms(4) by simp_all
  have G: "\<exists>cs1 cs2. db A = replay cs1 d
      \<and> (\<forall>c\<in>set cs1. verifiedCall F vans pans n c)
      \<and> db (snd (handlePreparedWork rangeOrder d w)) = replay cs2 (db A)
      \<and> (\<forall>c\<in>set cs2. skipCall ?W c)
      \<and> (\<not> anyErr (errs A) \<and> realm (db A) \<noteq> invalidationStartRealmSlot w \<longrightarrow>
           (\<forall>j<n. vans ! j \<noteq> None \<and> pans ! j = None \<longrightarrow>
                VanSave (F + of_nat j) \<lparr>HeaderHash = 0, Status = Skipped\<rparr> \<in> set cs2)
         \<and> (\<forall>j<n. vans ! j = None \<and> pans ! j \<noteq> None \<longrightarrow>
                PanSave (F + of_nat j) \<lparr>HeaderHash = 0, Status = Skipped\<rparr> \<in> set cs2)
         \<and> (faults d = noFaults \<longrightarrow>
              (\<forall>j<n. vans ! j = None \<and> pans ! j = None \<and> \<not> realm (db A) < F + of_nat j \<longrightarrow>
                   VanSave (F + of_nat j) \<lparr>HeaderHash = 0, Status = Skipped\<rparr> \<in> set cs2
                 \<and> PanSave (F + of_nat j) \<lparr>HeaderHash = 0, Status = Skipped\<rparr> \<in> set cs2)))
      \<and> (faults d = noFaults \<longrightarrow>
           fst (handlePreparedWork rangeOrder d w) = Returns \<and> \<not> anyErr (errs A))"
  proof (cases "anyErr (errs A)")
    case True
    then have "handlePreparedWork rangeOrder d w = (SendsErrors (errs A), A)"
      by (simp add: handlePreparedWork_unfold A_def)
    moreover have "db A = replay [] (db A)" by (simp add: replay_Nil)
    ultimately have h: "db (snd (handlePreparedWork rangeOrder d w)) = replay [] (db A)"
      by simp
    show ?thesis
    proof (rule exI [of _ cs1], rule exI [of _ "[]"], intro conjI)
      show "db A = replay cs1 d" by (rule cs1(1))
      show "\<forall>c\<in>set cs1. verifiedCall F vans pans n c" by (rule cs1(2))
      show "db (snd (handlePreparedWork rangeOrder d w)) = replay [] (db A)" by (rule h)
      show "\<forall>c\<in>set []. skipCall ?W c" by simp
      show "faults d = noFaults \<longrightarrow>
           fst (handlePreparedWork rangeOrder d w) = Returns \<and> \<not> anyErr (errs A)"
        using nf True by blast
    qed (use True in simp)
  next
    case False
    then have unfold: "handlePreparedWork rangeOrder d w = resolvePairs rangeOrder A"
      by (simp add: handlePreparedWork_unfold A_def)
    have ce: "\<not> chainErr (errs (verifyLoop F pans 0 (take n vans) st0))"
      using False A by (simp add: anyErr_chainErr)
    from resolvePairs_effect [OF hf ro] obtain cs2 where cs2:
      "db (snd (resolvePairs rangeOrder A)) = replay cs2 (db A)"
      "\<forall>c\<in>set cs2. skipCall (fst ` set (pandoraOrphans (work A))
                \<union> fst ` set (vanguardOrphans (work A)) \<union> {t. \<not> realm (db A) < t}) c"
      "realm (db A) \<noteq> invalidationStartRealmSlot (work A) \<longrightarrow>
           (\<forall>k\<in>fst ` set (pandoraOrphans (work A)).
              PanSave k \<lparr>HeaderHash = 0, Status = Skipped\<rparr> \<in> set cs2)
         \<and> (\<forall>k\<in>fst ` set (vanguardOrphans (work A)).
              VanSave k \<lparr>HeaderHash = 0, Status = Skipped\<rparr> \<in> set cs2)
         \<and> (faults (db A) = noFaults \<and> \<not> anyErr (errs A) \<longrightarrow>
              (\<forall>pair. Some pair \<in> set (possibleSkippedPair (work A))
                    \<and> \<not> realm (db A) < Slot pair \<longrightarrow>
                 VanSave (Slot pair) \<lparr>HeaderHash = 0, Status = Skipped\<rparr> \<in> set cs2
               \<and> PanSave (Slot pair) \<lparr>HeaderHash = 0, Status = Skipped\<rparr> \<in> set cs2))"
      "faults (db A) = noFaults \<and> \<not> anyErr (errs A) \<longrightarrow> fst (resolvePairs rangeOrder A) = Returns"
      by blast
    have fA: "faults (db A) = faults d" using cs1(1) by (simp add: faults_replay)
    have up: "\<forall>c\<in>set cs2. skipCall ?W c"
    proof
      fix c assume "c \<in> set cs2"
      with cs2(2) have "skipCall (fst ` set (pandoraOrphans (work A))
                \<union> fst ` set (vanguardOrphans (work A)) \<union> {t. \<not> realm (db A) < t}) c" by blast
      then show "skipCall ?W c"
      proof (rule skipCall_mono)
        have "{F + of_nat j | j. j < n \<and> vans ! j \<noteq> None \<and> pans ! j = None}
                \<subseteq> {F + of_nat j | j. j < n \<and> (vans ! j = None) \<noteq> (pans ! j = None)}"
        proof
          fix x assume "x \<in> {F + of_nat j | j. j < n \<and> vans ! j \<noteq> None \<and> pans ! j = None}"
          then obtain j where "x = F + of_nat j" "j < n" "vans ! j \<noteq> None" "pans ! j = None"
            by (elim CollectE exE conjE)
          then have "x = F + of_nat j \<and> j < n \<and> (vans ! j = None) \<noteq> (pans ! j = None)" by simp
          then show "x \<in> {F + of_nat j | j. j < n \<and> (vans ! j = None) \<noteq> (pans ! j = None)}"
            by (intro CollectI exI)
        qed
        with vo have v: "fst ` set (vanguardOrphans (work A))
                \<subseteq> {F + of_nat j | j. j < n \<and> (vans ! j = None) \<noteq> (pans ! j = None)}"
          by (rule subset_trans)
        have "{F + of_nat j | j. j < n \<and> vans ! j = None \<and> pans ! j \<noteq> None}
                \<subseteq> {F + of_nat j | j. j < n \<and> (vans ! j = None) \<noteq> (pans ! j = None)}"
        proof
          fix x assume "x \<in> {F + of_nat j | j. j < n \<and> vans ! j = None \<and> pans ! j \<noteq> None}"
          then obtain j where "x = F + of_nat j" "j < n" "vans ! j = None" "pans ! j \<noteq> None"
            by (elim CollectE exE conjE)
          then have "x = F + of_nat j \<and> j < n \<and> (vans ! j = None) \<noteq> (pans ! j = None)" by simp
          then show "x \<in> {F + of_nat j | j. j < n \<and> (vans ! j = None) \<noteq> (pans ! j = None)}"
            by (intro CollectI exI)
        qed
        with po have p: "fst ` set (pandoraOrphans (work A))
                \<subseteq> {F + of_nat j | j. j < n \<and> (vans ! j = None) \<noteq> (pans ! j = None)}"
          by (rule subset_trans)
        from v p show "fst ` set (pandoraOrphans (work A)) \<union> fst ` set (vanguardOrphans (work A))
                \<union> {t. \<not> realm (db A) < t} \<subseteq> ?W"
          by (simp add: le_supI1)
      qed
    qed
    have low: "(vans ! j = None \<and> pans ! j = None \<longrightarrow>
            Some \<lparr>Slot = F + of_nat j, VanguardHash = None, PandoraHashes = []\<rparr>
              \<in> set (possibleSkippedPair (work A)))
       \<and> (vans ! j \<noteq> None \<and> pans ! j = None \<longrightarrow> F + of_nat j \<in> fst ` set (vanguardOrphans (work A)))
       \<and> (vans ! j = None \<and> pans ! j \<noteq> None \<longrightarrow> F + of_nat j \<in> fst ` set (pandoraOrphans (work A)))"
      if "j < n" for j
      unfolding A using verifyLoop_lower [OF e0(1) n ce that] .
    have c3: "(\<forall>k\<in>fst ` set (pandoraOrphans (work A)).
              PanSave k \<lparr>HeaderHash = 0, Status = Skipped\<rparr> \<in> set cs2)"
         "(\<forall>k\<in>fst ` set (vanguardOrphans (work A)).
              VanSave k \<lparr>HeaderHash = 0, Status = Skipped\<rparr> \<in> set cs2)"
         "faults (db A) = noFaults \<and> \<not> anyErr (errs A) \<longrightarrow>
              (\<forall>pair. Some pair \<in> set (possibleSkippedPair (work A))
                    \<and> \<not> realm (db A) < Slot pair \<longrightarrow>
                 VanSave (Slot pair) \<lparr>HeaderHash = 0, Status = Skipped\<rparr> \<in> set cs2
               \<and> PanSave (Slot pair) \<lparr>HeaderHash = 0, Status = Skipped\<rparr> \<in> set cs2)"
      if r: "realm (db A) \<noteq> invalidationStartRealmSlot w"
    proof -
      from r isr have "realm (db A) \<noteq> invalidationStartRealmSlot (work A)" by simp
      with cs2(3) have x: "(\<forall>k\<in>fst ` set (pandoraOrphans (work A)).
              PanSave k \<lparr>HeaderHash = 0, Status = Skipped\<rparr> \<in> set cs2)
         \<and> (\<forall>k\<in>fst ` set (vanguardOrphans (work A)).
              VanSave k \<lparr>HeaderHash = 0, Status = Skipped\<rparr> \<in> set cs2)
         \<and> (faults (db A) = noFaults \<and> \<not> anyErr (errs A) \<longrightarrow>
              (\<forall>pair. Some pair \<in> set (possibleSkippedPair (work A))
                    \<and> \<not> realm (db A) < Slot pair \<longrightarrow>
                 VanSave (Slot pair) \<lparr>HeaderHash = 0, Status = Skipped\<rparr> \<in> set cs2
               \<and> PanSave (Slot pair) \<lparr>HeaderHash = 0, Status = Skipped\<rparr> \<in> set cs2))"
        by (rule mp)
      from x show "(\<forall>k\<in>fst ` set (pandoraOrphans (work A)).
              PanSave k \<lparr>HeaderHash = 0, Status = Skipped\<rparr> \<in> set cs2)" by (elim conjE)
      from x show "(\<forall>k\<in>fst ` set (vanguardOrphans (work A)).
              VanSave k \<lparr>HeaderHash = 0, Status = Skipped\<rparr> \<in> set cs2)" by (elim conjE)
      from x show "faults (db A) = noFaults \<and> \<not> anyErr (errs A) \<longrightarrow>
              (\<forall>pair. Some pair \<in> set (possibleSkippedPair (work A))
                    \<and> \<not> realm (db A) < Slot pair \<longrightarrow>
                 VanSave (Slot pair) \<lparr>HeaderHash = 0, Status = Skipped\<rparr> \<in> set cs2
               \<and> PanSave (Slot pair) \<lparr>HeaderHash = 0, Status = Skipped\<rparr> \<in> set cs2)"
        by (elim conjE)
    qed
    have lowv: "\<forall>j<n. vans ! j \<noteq> None \<and> pans ! j = None \<longrightarrow>
                VanSave (F + of_nat j) \<lparr>HeaderHash = 0, Status = Skipped\<rparr> \<in> set cs2"
      if r: "realm (db A) \<noteq> invalidationStartRealmSlot w"
    proof (intro allI impI)
      fix j assume j: "j < n" and c: "vans ! j \<noteq> None \<and> pans ! j = None"
      from low [OF j] c have "F + of_nat j \<in> fst ` set (vanguardOrphans (work A))" by (elim conjE) simp
      with c3(2) [OF r]
      show "VanSave (F + of_nat j) \<lparr>HeaderHash = 0, Status = Skipped\<rparr> \<in> set cs2" by (rule bspec)
    qed
    have lowp: "\<forall>j<n. vans ! j = None \<and> pans ! j \<noteq> None \<longrightarrow>
                PanSave (F + of_nat j) \<lparr>HeaderHash = 0, Status = Skipped\<rparr> \<in> set cs2"
      if r: "realm (db A) \<noteq> invalidationStartRealmSlot w"
    proof (intro allI impI)
      fix j assume j: "j < n" and c: "vans ! j = None \<and> pans ! j \<noteq> None"
      from low [OF j] c have "F + of_nat j \<in> fst ` set (pandoraOrphans (work A))" by (elim conjE) simp
      with c3(1) [OF r]
      show "PanSave (F + of_nat j) \<lparr>HeaderHash = 0, Status = Skipped\<rparr> \<in> set cs2" by (rule bspec)
    qed
    have lows: "\<forall>j<n. vans ! j = None \<and> pans ! j = None \<and> \<not> realm (db A) < F + of_nat j \<longrightarrow>
                   VanSave (F + of_nat j) \<lparr>HeaderHash = 0, Status = Skipped\<rparr> \<in> set cs2
                 \<and> PanSave (F + of_nat j) \<lparr>HeaderHash = 0, Status = Skipped\<rparr> \<in> set cs2"
      if r: "realm (db A) \<noteq> invalidationStartRealmSlot w" and f: "faults d = noFaults"
    proof (intro allI impI)
      fix j assume j: "j < n"
        and c: "vans ! j = None \<and> pans ! j = None \<and> \<not> realm (db A) < F + of_nat j"
      let ?pair = "\<lparr>Slot = F + of_nat j, VanguardHash = None, PandoraHashes = []\<rparr>"
      from low [OF j] c have m: "Some ?pair \<in> set (possibleSkippedPair (work A))"
        by (elim conjE) simp
      have "faults (db A) = noFaults \<and> \<not> anyErr (errs A)" using f fA False by simp
      with c3(3) [OF r] have "\<forall>pair. Some pair \<in> set (possibleSkippedPair (work A))
                    \<and> \<not> realm (db A) < Slot pair \<longrightarrow>
                 VanSave (Slot pair) \<lparr>HeaderHash = 0, Status = Skipped\<rparr> \<in> set cs2
               \<and> PanSave (Slot pair) \<lparr>HeaderHash = 0, Status = Skipped\<rparr> \<in> set cs2"
        by (rule mp)
      then have "Some ?pair \<in> set (possibleSkippedPair (work A))
                    \<and> \<not> realm (db A) < Slot ?pair \<longrightarrow>
                 VanSave (Slot ?pair) \<lparr>HeaderHash = 0, Status = Skipped\<rparr> \<in> set cs2
               \<and> PanSave (Slot ?pair) \<lparr>HeaderHash = 0, Status = Skipped\<rparr> \<in> set cs2"
        by (rule spec)
      with m c show "VanSave (F + of_nat j) \<lparr>HeaderHash = 0, Status = Skipped\<rparr> \<in> set cs2
                 \<and> PanSave (F + of_nat j) \<lparr>HeaderHash = 0, Status = Skipped\<rparr> \<in> set cs2"
        by simp
    qed
    have ret: "fst (resolvePairs rangeOrder A) = Returns" if "faults d = noFaults"
      using cs2(4) that fA False by simp
    show ?thesis
      unfolding unfold
    proof (rule exI [of _ cs1], rule exI [of _ cs2], intro conjI)
      show "db A = replay cs1 d" by (rule cs1(1))
      show "\<forall>c\<in>set cs1. verifiedCall F vans pans n c" by (rule cs1(2))
      show "db (snd (resolvePairs rangeOrder A)) = replay cs2 (db A)" by (rule cs2(1))
      show "\<forall>c\<in>set cs2. skipCall ?W c" by (rule up)
      show "faults d = noFaults \<longrightarrow>
           fst (resolvePairs rangeOrder A) = Returns \<and> \<not> anyErr (errs A)"
        using ret False by blast
      show "\<not> anyErr (errs A) \<and> realm (db A) \<noteq> invalidationStartRealmSlot w \<longrightarrow>
           (\<forall>j<n. vans ! j \<noteq> None \<and> pans ! j = None \<longrightarrow>
                VanSave (F + of_nat j) \<lparr>HeaderHash = 0, Status = Skipped\<rparr> \<in> set cs2)
         \<and> (\<forall>j<n. vans ! j = None \<and> pans ! j \<noteq> None \<longrightarrow>
                PanSave (F + of_nat j) \<lparr>HeaderHash = 0, Status = Skipped\<rparr> \<in> set cs2)
         \<and> (faults d = noFaults \<longrightarrow>
              (\<forall>j<n. vans ! j = None \<and> pans ! j = None \<and> \<not> realm (db A) < F + of_nat j \<longrightarrow>
                   VanSave (F + of_nat j) \<lparr>HeaderHash = 0, Status = Skipped\<rparr> \<in> set cs2
                 \<and> PanSave (F + of_nat j) \<lparr>HeaderHash = 0, Status = Skipped\<rparr> \<in> set cs2))"
      proof (intro impI conjI)
        assume a: "\<not> anyErr (errs A) \<and> realm (db A) \<noteq> invalidationStartRealmSlot w"
        then have r: "realm (db A) \<noteq> invalidationStartRealmSlot w" by simp
        show "\<forall>j<n. vans ! j \<noteq> None \<and> pans ! j = None \<longrightarrow>
                VanSave (F + of_nat j) \<lparr>HeaderHash = 0, Status = Skipped\<rparr> \<in> set cs2"
          by (rule lowv [OF r])
        show "\<forall>j<n. vans ! j = None \<and> pans ! j \<noteq> None \<longrightarrow>
                PanSave (F + of_nat j) \<lparr>HeaderHash = 0, Status = Skipped\<rparr> \<in> set cs2"
          by (rule lowp [OF r])
        assume f: "faults d = noFaults"
        show "\<forall>j<n. vans ! j = None \<and> pans ! j = None \<and> \<not> realm (db A) < F + of_nat j \<longrightarrow>
                   VanSave (F + of_nat j) \<lparr>HeaderHash = 0, Status = Skipped\<rparr> \<in> set cs2
                 \<and> PanSave (F + of_nat j) \<lparr>HeaderHash = 0, Status = Skipped\<rparr> \<in> set cs2"
          by (rule lows [OF r f])
      qed
    qed
  qed
  then show ?thesis unfolding A_def n_def F_def vans_def pans_def .
qed

section \<open>Every step is a replay of the calls it issues\<close>

lemma verifySlot_replay: "\<exists>cs. db (snd (verifySlot s v p st)) = replay cs (db st)"
proof (cases "v = None \<or> p = None")
  case True
  then have "db (snd (verifySlot s v p st)) = replay [] (db st)"
    by (simp add: verifySlot_unpaired replay_Nil)
  then show ?thesis ..
next
  case False
  then obtain v' p' where "v = Some v'" "p = Some p'" by auto
  then show ?thesis by (auto simp: verifySlot_paired)
qed

lemma verifyLoop_replay: "\<exists>cs. db (verifyLoop fromS pans k xs st) = replay cs (db st)"
proof (induction xs arbitrary: k st)
  case Nil
  have "db st = replay [] (db st)" by (simp add: replay_Nil)
  then show ?case by auto
next
  case (Cons x xs)
  let ?r = "verifySlot (fromS + of_nat k) x (pans ! k) st"
  obtain cs where cs: "db (snd ?r) = replay cs (db st)" using verifySlot_replay by blast
  obtain cs' where cs': "db (verifyLoop fromS pans (Suc k) xs (snd ?r)) = replay cs' (db (snd ?r))"
    using Cons.IH by blast
  have e: "db st = replay [] (db st)" by (simp add: replay_Nil)
  have "db (verifyLoop fromS pans (Suc k) xs (snd ?r)) = replay (cs @ cs') (db st)"
    using cs cs' by (simp add: replay_replay)
  with cs e show ?case
    by (cases "length pans \<le> k"; cases "fst ?r") (auto simp: case_prod_beta)
qed

lemma savePending_replay:
  "\<exists>cs. db (savePendingVanguard pair st) = replay cs (db st)"
  "\<exists>cs. db (savePendingPandora pair st) = replay cs (db st)"
proof -
  have e: "db st = replay [] (db st)" by (simp add: replay_Nil)
  show "\<exists>cs. db (savePendingVanguard pair st) = replay cs (db st)"
    using e by (cases "VanguardHash pair") (auto simp: savePendingVanguard_def case_prod_beta Save_replay)
  show "\<exists>cs. db (savePendingPandora pair st) = replay cs (db st)"
    using e
    by (auto simp: savePendingPandora_def case_prod_beta Save_replay split: list.splits option.splits)
qed

lemma pendingPairsLoop_replay: "\<exists>cs. db (pendingPairsLoop pairs st) = replay cs (db st)"
proof (induction pairs arbitrary: st)
  case Nil
  have "db st = replay [] (db st)" by (simp add: replay_Nil)
  then show ?case by auto
next
  case (Cons pair pairs)
  obtain c1 where c1: "db (savePendingVanguard pair st) = replay c1 (db st)"
    using savePending_replay(1) by blast
  obtain c2 where c2: "db (savePendingPandora pair (savePendingVanguard pair st))
      = replay c2 (db (savePendingVanguard pair st))"
    using savePending_replay(2) by blast
  obtain c3 where c3: "db (pendingPairsLoop pairs (savePendingPandora pair (savePendingVanguard pair st)))
      = replay c3 (db (savePendingPandora pair (savePendingVanguard pair st)))"
    using Cons.IH by blast
  have "db (pendingPairsLoop (pair # pairs) st) = replay (c1 @ c2 @ c3) (db st)"
    using c1 c2 c3 by (simp add: replay_replay)
  then show ?case ..
qed

lemma finalizePairs_replay: "\<exists>cs. db (snd (finalizePairs latest rng st)) = replay cs (db st)"
proof -
  let ?R = "skippedPairsLoop latest (possibleSkippedPair (work st)) [] st"
  obtain c1 where c1: "db (snd ?R) = replay c1 (db st)"
    using skippedPairsLoop_effect [of latest "possibleSkippedPair (work st)" "[]" st] by blast
  obtain c2 where c2: "db (pendingPairsLoop (fst ?R) (snd ?R)) = replay c2 (db (snd ?R))"
    using pendingPairsLoop_replay by blast
  obtain c3 where c3: "db (snd (fillGaps latest rng (pendingPairsLoop (fst ?R) (snd ?R))))
      = replay c3 (db (pendingPairsLoop (fst ?R) (snd ?R)))"
    using fillGaps_effect by blast
  have a: "db (pendingPairsLoop (fst ?R) (snd ?R)) = replay (c1 @ c2) (db st)"
    using c1 c2 by (simp add: replay_replay)
  have b: "db (snd (fillGaps latest rng (pendingPairsLoop (fst ?R) (snd ?R)))) = replay (c1 @ c2 @ c3) (db st)"
    using c1 c2 c3 by (simp add: replay_replay)
  show ?thesis
    using c1 a b by (auto simp: finalizePairs_def case_prod_beta Let_def)
qed

lemma finalizeOrphans_replay:
  "\<exists>cs. db (snd (finalizeOrphans rangeOrder latest rng st)) = replay cs (db st)"
proof -
  define st1 where "st1 = markPandoraOrphans (rangeOrder (map fst (pandoraOrphans (work st)))) st"
  define st2 where "st2 = markVanguardOrphans (rangeOrder (map fst (vanguardOrphans (work st)))) st1"
  obtain c1 where c1: "db st1 = replay c1 (db st)"
    unfolding st1_def using markPandoraOrphans_effect by blast
  obtain c2 where c2: "db st2 = replay c2 (db st1)"
    unfolding st2_def using markVanguardOrphans_effect by blast
  obtain c3 where c3: "db (snd (finalizePairs latest rng st2)) = replay c3 (db st2)"
    using finalizePairs_replay by blast
  have a: "db st2 = replay (c1 @ c2) (db st)" using c1 c2 by (simp add: replay_replay)
  have b: "db (snd (finalizePairs latest rng st2)) = replay (c1 @ c2 @ c3) (db st)"
    using c1 c2 c3 by (simp add: replay_replay)
  have "finalizeOrphans rangeOrder latest rng st =
      (if chainErr (errs st2) then (SendsErrors (errs st2), st2)
       else finalizePairs latest rng st2)"
    by (simp add: finalizeOrphans_def Let_def st2_def st1_def)
  with a b show ?thesis by auto
qed

lemma resolvePairs_replay: "\<exists>cs. db (snd (resolvePairs rangeOrder st)) = replay cs (db st)"
proof -
  have e: "db st = replay [] (db st)" by (simp add: replay_Nil)
  obtain c where "db (snd (finalizeOrphans rangeOrder (realm (db st))
        (realm (db st) - invalidationStartRealmSlot (work st)) st)) = replay c (db st)"
    using finalizeOrphans_replay by blast
  with e show ?thesis
    by (auto simp: resolvePairs_def LatestVerifiedRealmSlot_def Let_def)
qed

lemma handlePreparedWork_replay:
  "\<exists>cs. db (snd (handlePreparedWork rangeOrder d w)) = replay cs (db (afterVerification d w))"
proof -
  have e: "db (afterVerification d w) = replay [] (db (afterVerification d w))"
    by (simp add: replay_Nil)
  obtain c where "db (snd (resolvePairs rangeOrder (afterVerification d w)))
      = replay c (db (afterVerification d w))"
    using resolvePairs_replay by blast
  with e show ?thesis by (auto simp: handlePreparedWork_unfold)
qed

text \<open>The process is never ended by the check of the invalidation range.\<close>

lemma fillGaps_not_fatal: "fst (fillGaps latest rng st) \<noteq> FatalExit"
  by (simp add: fillGaps_def case_prod_beta Let_def)

lemma finalizePairs_not_fatal: "fst (finalizePairs latest rng st) \<noteq> FatalExit"
  by (simp add: finalizePairs_def case_prod_beta Let_def fillGaps_not_fatal)

lemma finalizeOrphans_not_fatal: "fst (finalizeOrphans rangeOrder latest rng st) \<noteq> FatalExit"
  by (simp add: finalizeOrphans_def Let_def finalizePairs_not_fatal)

lemma resolvePairs_not_fatal: "fst (resolvePairs rangeOrder st) \<noteq> FatalExit"
  by (simp add: resolvePairs_def Let_def finalizeOrphans_not_fatal)

lemma handlePreparedWork_not_fatal: "fst (handlePreparedWork rangeOrder d w) \<noteq> FatalExit"
  by (simp add: handlePreparedWork_def Let_def resolvePairs_not_fatal)

lemma atIndex_noFaults:
  assumes "faults d = noFaults"
  shows "\<not> anyErr (errs (atIndex n d w))" and "\<not> chainErr (errs (atIndex n d w))"
    and "\<not> anyErr (errs (afterVerification d w))"
proof -
  show a: "\<not> anyErr (errs (atIndex n d w))"
    unfolding atIndex_def using assms by (intro verifyLoop_noFaults) (simp_all add: anyErr_def)
  then show "\<not> chainErr (errs (atIndex n d w))" by (rule anyErr_chainErr)
  show "\<not> anyErr (errs (afterVerification d w))"
    unfolding afterVerification_def using assms
    by (intro verifyLoop_noFaults) (simp_all add: anyErr_def)
qed

lemma atIndex_replay: "\<exists>cs. db (atIndex n d w) = replay cs d"
  unfolding atIndex_def using verifyLoop_replay [of "fromSlot w" "pandoraHashes w" 0
      "take n (vanguardHashes w)"
      "\<lparr>db = d, work = w, errs = \<lparr>vanguardErr = None, pandoraErr = None, realmErr = None\<rparr>\<rparr>"]
  by simp

lemma atIndex_Suc:
  assumes "n < length (vanguardHashes w)" and "n < length (pandoraHashes w)"
  shows "atIndex (Suc n) d w =
           (if chainErr (errs (atIndex n d w)) then atIndex n d w
            else snd (verifySlot (fromSlot w + of_nat n) (vanguardHashes w ! n)
                       (pandoraHashes w ! n) (atIndex n d w)))"
  unfolding atIndex_def
  by (rule verifyLoop_take_Suc [OF _ assms]) (simp add: chainErr_def)

lemma afterVerification_from:
  assumes "n \<le> length (vanguardHashes w)" and "n \<le> length (pandoraHashes w)"
  shows "afterVerification d w =
           (if chainErr (errs (atIndex n d w)) then atIndex n d w
            else verifyLoop (fromSlot w) (pandoraHashes w) n (drop n (vanguardHashes w))
                   (atIndex n d w))"
proof -
  let ?st0 = "\<lparr>db = d, work = w, errs = \<lparr>vanguardErr = None, pandoraErr = None, realmErr = None\<rparr>\<rparr>"
  have e: "\<not> chainErr (errs ?st0)" by (simp add: chainErr_def)
  have l: "0 + length (take n (vanguardHashes w)) \<le> length (pandoraHashes w)"
    using assms by simp
  have n: "min (length (vanguardHashes w)) n = n" using assms by simp
  from verifyLoop_append [OF e l, of "fromSlot w" "drop n (vanguardHashes w)"]
  show ?thesis unfolding afterVerification_def atIndex_def by (simp add: n)
qed

lemma slot_inj:
  assumes "j < 2 ^ 64" and "n < 2 ^ 64" and "(F :: 64 word) + of_nat j = F + of_nat n"
  shows "j = n"
proof -
  from assms(3) have "(of_nat j :: 64 word) = of_nat n" by simp
  then have "unat (of_nat j :: 64 word) = unat (of_nat n :: 64 word)" by simp
  then show ?thesis using assms(1,2) by (simp add: unat_of_nat)
qed

lemma atIndex_reached:
  assumes "n \<le> length (vanguardHashes w)" and "n \<le> length (pandoraHashes w)" and "m \<le> n"
    and "\<not> chainErr (errs (atIndex n d w))"
  shows "\<not> chainErr (errs (atIndex m d w))"
  unfolding atIndex_def
  by (rule verifyLoop_reached [OF _ assms(1-3) assms(4) [unfolded atIndex_def]])
    (simp add: chainErr_def)

lemma atIndex_faults: "faults (db (atIndex n d w)) = faults d"
proof -
  obtain cs where "db (atIndex n d w) = replay cs d" using atIndex_replay by blast
  then show ?thesis by (simp add: faults_replay)
qed

text \<open>What one iteration at a paired index leaves when no chain write failed.\<close>

lemma verifySlot_paired_ok:
  assumes "\<not> chainErr (errs (snd (verifySlot s (Some v) (Some p) st)))"
  shows "vanguardStore (db (snd (verifySlot s (Some v) (Some p) st)))
           = (vanguardStore (db st))(s \<mapsto> \<lparr>HeaderHash = HeaderHash v, Status = Verified\<rparr>)"
    and "pandoraStore (db (snd (verifySlot s (Some v) (Some p) st)))
           = (pandoraStore (db st))(s \<mapsto> \<lparr>HeaderHash = HeaderHash p, Status = Verified\<rparr>)"
    and "realm (db (snd (verifySlot s (Some v) (Some p) st)))
           = (if faults (db st) (calls (db st) @
                   [VanSave s \<lparr>HeaderHash = HeaderHash v, Status = Verified\<rparr>,
                    PanSave s \<lparr>HeaderHash = HeaderHash p, Status = Verified\<rparr>]) (RealmSave s) = None
              then s else realm (db st))"
  using assms
  by (simp_all add: verifySlot_paired chainErr_def replay_Cons replay_Nil vanguardStore_perform
      pandoraStore_perform realm_perform perform_faults perform_calls split: if_splits)

lemma atIndex_verified:
  assumes "n \<le> length (vanguardHashes w)" and "n \<le> length (pandoraHashes w)"
    and "n \<le> 2 ^ 64" and "\<not> chainErr (errs (atIndex n d w))"
    and "j < n" and "vanguardHashes w ! j = Some vj" and "pandoraHashes w ! j = Some pj"
  shows "vanguardStore (db (atIndex n d w)) (fromSlot w + of_nat j)
           = Some \<lparr>HeaderHash = HeaderHash vj, Status = Verified\<rparr>
       \<and> pandoraStore (db (atIndex n d w)) (fromSlot w + of_nat j)
           = Some \<lparr>HeaderHash = HeaderHash pj, Status = Verified\<rparr>"
  using assms(1-5)
proof (induction n)
  case 0
  then show ?case by simp
next
  case (Suc n)
  let ?s = "fromSlot w + of_nat n"
  let ?L = "atIndex n d w"
  from Suc.prems have n: "n < length (vanguardHashes w)" "n < length (pandoraHashes w)"
    and n64: "n < 2 ^ 64" by simp_all
  have ok: "\<not> chainErr (errs ?L)"
    using atIndex_reached [OF Suc.prems(1,2) _ Suc.prems(4), of n] by simp
  have step: "atIndex (Suc n) d w
      = snd (verifySlot ?s (vanguardHashes w ! n) (pandoraHashes w ! n) ?L)"
    using atIndex_Suc [OF n, of d] ok by simp
  show ?case
  proof (cases "j = n")
    case True
    have e: "\<not> chainErr (errs (snd (verifySlot ?s (Some vj) (Some pj) ?L)))"
      using Suc.prems(4) step True assms(6,7) by simp
    show ?thesis
      unfolding step True using assms(6,7) True verifySlot_paired_ok(1,2) [OF e] by simp
  next
    case False
    with Suc.prems have j: "j < n" by simp
    then have j64: "j < 2 ^ 64" using n64 by simp
    have ne: "fromSlot w + of_nat j \<noteq> ?s"
      using slot_inj [OF j64 n64, of "fromSlot w"] False by blast
    have IH: "vanguardStore (db ?L) (fromSlot w + of_nat j)
           = Some \<lparr>HeaderHash = HeaderHash vj, Status = Verified\<rparr>
       \<and> pandoraStore (db ?L) (fromSlot w + of_nat j)
           = Some \<lparr>HeaderHash = HeaderHash pj, Status = Verified\<rparr>"
      using Suc.IH n ok j n64 by simp
    show ?thesis
    proof (cases "vanguardHashes w ! n = None \<or> pandoraHashes w ! n = None")
      case True
      then show ?thesis unfolding step using IH by (simp add: verifySlot_unpaired(2))
    next
      case False
      then obtain v p where vp: "vanguardHashes w ! n = Some v" "pandoraHashes w ! n = Some p"
        by auto
      have e: "\<not> chainErr (errs (snd (verifySlot ?s (Some v) (Some p) ?L)))"
        using Suc.prems(4) step vp by simp
      show ?thesis
        unfolding step vp using IH ne verifySlot_paired_ok(1,2) [OF e] by simp
    qed
  qed
qed

lemma atIndex_unpaired_prefix:
  assumes "n \<le> length (vanguardHashes w)" and "n \<le> length (pandoraHashes w)"
    and "\<forall>j<n. \<not> paired w j"
  shows "db (atIndex n d w) = d
       \<and> errs (atIndex n d w) = \<lparr>vanguardErr = None, pandoraErr = None, realmErr = None\<rparr>"
  using assms
proof (induction n)
  case 0
  then show ?case by (simp add: atIndex_def)
next
  case (Suc n)
  from Suc.prems have n: "n < length (vanguardHashes w)" "n < length (pandoraHashes w)" by simp_all
  have IH: "db (atIndex n d w) = d"
      "errs (atIndex n d w) = \<lparr>vanguardErr = None, pandoraErr = None, realmErr = None\<rparr>"
    using Suc.IH Suc.prems by simp_all
  have u: "vanguardHashes w ! n = None \<or> pandoraHashes w ! n = None"
    using Suc.prems(3) by (simp add: paired_def)
  have "\<not> chainErr (errs (atIndex n d w))" using IH(2) by (simp add: chainErr_def)
  then have "atIndex (Suc n) d w
      = snd (verifySlot (fromSlot w + of_nat n) (vanguardHashes w ! n) (pandoraHashes w ! n)
              (atIndex n d w))"
    using atIndex_Suc [OF n, of d] by simp
  then show ?case using IH u by (simp add: verifySlot_unpaired(2,3))
qed

lemma atIndex_realm_last:
  assumes "n \<le> length (vanguardHashes w)" and "n \<le> length (pandoraHashes w)"
    and "\<not> chainErr (errs (atIndex n d w))"
    and "\<forall>log t. faults d log (RealmSave t) = None"
    and "j < n" and "paired w j" and "\<forall>k. j < k \<and> k < n \<longrightarrow> \<not> paired w k"
  shows "realm (db (atIndex n d w)) = fromSlot w + of_nat j"
  using assms(1-3,5,7)
proof (induction n)
  case 0
  then show ?case by simp
next
  case (Suc n)
  let ?s = "fromSlot w + of_nat n"
  let ?L = "atIndex n d w"
  from Suc.prems have n: "n < length (vanguardHashes w)" "n < length (pandoraHashes w)" by simp_all
  have ok: "\<not> chainErr (errs ?L)"
    using atIndex_reached [OF Suc.prems(1,2) _ Suc.prems(3), of n] by simp
  have step: "atIndex (Suc n) d w
      = snd (verifySlot ?s (vanguardHashes w ! n) (pandoraHashes w ! n) ?L)"
    using atIndex_Suc [OF n, of d] ok by simp
  show ?case
  proof (cases "j = n")
    case True
    with assms(6) obtain v p where vp: "vanguardHashes w ! n = Some v" "pandoraHashes w ! n = Some p"
      by (auto simp: paired_def)
    have e: "\<not> chainErr (errs (snd (verifySlot ?s (Some v) (Some p) ?L)))"
      using Suc.prems(3) step vp by simp
    show ?thesis
      unfolding step vp True using verifySlot_paired_ok(3) [OF e] assms(4)
      by (simp add: atIndex_faults)
  next
    case False
    with Suc.prems have j: "j < n" by simp
    with Suc.prems(5) have "\<not> paired w n" by simp
    then have u: "vanguardHashes w ! n = None \<or> pandoraHashes w ! n = None"
      by (simp add: paired_def)
    have "\<forall>k. j < k \<and> k < n \<longrightarrow> \<not> paired w k" using Suc.prems(5) by simp
    then have "realm (db ?L) = fromSlot w + of_nat j"
      using Suc.IH n ok j by simp
    then show ?thesis unfolding step using u by (simp add: verifySlot_unpaired(2))
  qed
qed

lemmas pass_defs = Canonicalize_def runPass_def invokeInvalidation_def handlePreparedWork_def
  resolvePairs_def finalizeOrphans_def finalizePairs_def fillGaps_def
  verifySlot_def savePendingVanguard_def savePendingPandora_def
  SaveVanguardHeaderHash_def SavePandoraHeaderHash_def SaveLatestVerifiedRealmSlot_def
  LatestVerifiedRealmSlot_def VanguardHeaderHashes_def PandoraHeaderHashes_def perform_def
  denseRange_def EmptyHash_def noFaults_def anyErr_def chainErr_def
  startedService_def ingested_def quiet_def passDB_def
  vanguardAfter_def pandoraAfter_def watermarkAfter_def callsAfter_def errChanAfter_def
  failVanguardSaveAt_def

section \<open>The ingestion hook: a nil block\<close>

text \<open>
  C10. Called with a nil block, \<open>OnNewPendingVanguardBlock\<close> logs the one warning
  "block cannot be nil" and returns: the database it returns is the database it was
  given, stores and call log included, so nothing was written; and the result is the same
  whatever \<open>HashTreeRoot\<close> computes, so no hash enters it. Nothing is returned to the
  caller (the Go function has no result).
\<close>

theorem nil_block_is_logged_and_dropped:
  "OnNewPendingVanguardBlock HashTreeRoot None d =
     ([(''failed to save vanguard block hash'', ''block cannot be nil'')], d)"
  by (simp add: OnNewPendingVanguardBlock_def)

section \<open>The header cache: round trip\<close>

lemma lruGet_after_lruAdd:
  assumes "0 < capacity c"
  shows "fst (lruGet k (lruAdd k v c)) = Some v"
proof (cases "k \<in> fst ` set (entries c)")
  case True
  then show ?thesis by (simp add: lruGet_def lruAdd_def)
next
  case False
  from assms obtain n where n: "capacity c = Suc n" by (cases "capacity c") auto
  from False n show ?thesis by (simp add: lruGet_def lruAdd_def)
qed

lemma lruGet_absent:
  assumes "slot \<notin> fst ` set (entries c)"
  shows "lruGet slot c = (None, c)"
proof -
  from assms have "map_of (entries c) slot = None" by (simp add: map_of_eq_None_iff)
  then show ?thesis by (simp add: lruGet_def)
qed

text \<open>
  C9. Let \<open>header\<close> point to a header in memory and let the cache have room for at least
  one entry (\<open>lru.New\<close> accepts no other size). Then \<open>Put\<close> succeeds with a nil error, and
  \<open>Get\<close> for the same slot right after it returns a pointer \<open>q\<close> to a header with the
  value of the original, where \<open>q\<close> is neither the pointer given to \<open>Put\<close> nor the pointer
  the cache holds (a copy on insertion and another on read-out); the original header is
  untouched. And \<open>Get\<close> for a slot that is not in the cache returns the error
  \<open>errInvalidSlot\<close> and no header, leaving cache and memory as they were.
\<close>

theorem cache_round_trip:
  assumes "header < length heap" and "0 < capacity c"
  shows "(\<exists>c1 heap1 q c2 heap2 held.
            Put c heap slot header = Some (None, c1, heap1)
          \<and> Get c1 heap1 slot = Some (Inr q, c2, heap2)
          \<and> map_of (entries c2) slot = Some held
          \<and> q \<noteq> header \<and> held \<noteq> header \<and> q \<noteq> held
          \<and> q < length heap2 \<and> heap2 ! q = heap ! header
          \<and> heap2 ! held = heap ! header \<and> heap2 ! header = heap ! header)
       \<and> (absent \<notin> fst ` set (entries c) \<longrightarrow>
            Get c heap absent = Some (Inl errInvalidSlot, c, heap))"
proof
  let ?held = "length heap"
  let ?heap1 = "heap @ [heap ! header]"
  let ?c1 = "lruAdd slot ?held c"
  let ?heap2 = "?heap1 @ [?heap1 ! ?held]"
  have put: "Put c heap slot header = Some (None, ?c1, ?heap1)"
    using assms(1) by (simp add: Put_def CopyHeader_def)
  have found: "fst (lruGet slot ?c1) = Some ?held"
    using assms(2) by (rule lruGet_after_lruAdd)
  then obtain c2 where lg: "lruGet slot ?c1 = (Some ?held, c2)"
    by (cases "lruGet slot ?c1") simp
  have get: "Get ?c1 ?heap1 slot = Some (Inr (Suc ?held), c2, ?heap2)"
    by (simp add: Get_def lg CopyHeader_def)
  have front: "map_of (entries c2) slot = Some ?held"
    using lg by (auto simp: lruGet_def split: option.splits)
  have vals: "?heap2 ! Suc ?held = heap ! header" "?heap2 ! ?held = heap ! header"
    "?heap2 ! header = heap ! header"
    using assms(1) by (simp_all add: nth_append)
  show "\<exists>c1 heap1 q c2 heap2 held.
           Put c heap slot header = Some (None, c1, heap1)
         \<and> Get c1 heap1 slot = Some (Inr q, c2, heap2)
         \<and> map_of (entries c2) slot = Some held
         \<and> q \<noteq> header \<and> held \<noteq> header \<and> q \<noteq> held
         \<and> q < length heap2 \<and> heap2 ! q = heap ! header
         \<and> heap2 ! held = heap ! header \<and> heap2 ! header = heap ! header"
    using put get front vals assms(1)
    by (intro exI [of _ ?c1] exI [of _ ?heap1] exI [of _ "Suc ?held"] exI [of _ c2]
          exI [of _ ?heap2] exI [of _ ?held]) simp
  show "absent \<notin> fst ` set (entries c) \<longrightarrow>
           Get c heap absent = Some (Inl errInvalidSlot, c, heap)"
    by (simp add: Get_def lruGet_absent)
qed

text \<open>
  The round trip on a new cache: the header \<open>''h5''\<close> at address 0 is put at slot 5 and
  read back at address 2, and slot 6 is absent.
\<close>

theorem cache_round_trip_witness:
  "(0::nat) < length [''h5''] \<and> 0 < capacity NewPanHeaderCache
   \<and> Put NewPanHeaderCache [''h5''] 5 0
       = Some (None, \<lparr>capacity = 1024, entries = [(5, 1)]\<rparr>, [''h5'', ''h5''])
   \<and> Get \<lparr>capacity = 1024, entries = [(5, 1)]\<rparr> [''h5'', ''h5''] 5
       = Some (Inr 2, \<lparr>capacity = 1024, entries = [(5, 1)]\<rparr>, [''h5'', ''h5'', ''h5''])
   \<and> Get NewPanHeaderCache [''h5''] 6 = Some (Inl errInvalidSlot, NewPanHeaderCache, [''h5''])"
proof -
  have a: "(0::nat) < length [''h5'']" by simp
  have b: "0 < capacity NewPanHeaderCache"
    by (simp add: NewPanHeaderCache_def maxPanHeaderCacheSize_def)
  have c: "(6::slot) \<notin> fst ` set (entries NewPanHeaderCache)"
    by (simp add: NewPanHeaderCache_def)
  from cache_round_trip [OF a b, where absent = 6 and slot = 5] c
  have "Get NewPanHeaderCache [''h5''] 6 = Some (Inl errInvalidSlot, NewPanHeaderCache, [''h5''])"
    by blast
  moreover have "Put NewPanHeaderCache [''h5''] 5 0
       = Some (None, \<lparr>capacity = 1024, entries = [(5, 1)]\<rparr>, [''h5'', ''h5''])"
    by (simp add: Put_def CopyHeader_def lruAdd_def NewPanHeaderCache_def maxPanHeaderCacheSize_def)
  moreover have "Get \<lparr>capacity = 1024, entries = [(5, 1)]\<rparr> [''h5'', ''h5''] 5
       = Some (Inr 2, \<lparr>capacity = 1024, entries = [(5, 1)]\<rparr>, [''h5'', ''h5'', ''h5''])"
    by (simp add: Get_def CopyHeader_def lruGet_def)
  ultimately show ?thesis using a b by simp
qed

section \<open>The verification loop\<close>

text \<open>
  C1. On a database on which no call fails, let both batches hold a record at index
  \<open>i\<close>, the slot \<open>s = fromSlot + i\<close>. Then the calls of the pass contain, one after the
  other, the write of \<open>{hash of the vanguard record, Verified}\<close> to the vanguard store
  at \<open>s\<close>, the write of \<open>{hash of the pandora record, Verified}\<close> to the pandora store at
  \<open>s\<close>, and the update of the watermark to \<open>s\<close>; and right after these three calls both
  stores hold these records at \<open>s\<close> and the watermark is \<open>s\<close>.
\<close>

theorem verified_pair_is_written:
  assumes "faults d = noFaults"
    and "i < length (vanguardHashes w)" and "i < length (pandoraHashes w)"
    and "vanguardHashes w ! i = Some v" and "pandoraHashes w ! i = Some p"
  shows "\<exists>before after.
      newCalls d (db (snd (handlePreparedWork rangeOrder d w)))
        = before @ [VanSave (fromSlot w + of_nat i) \<lparr>HeaderHash = HeaderHash v, Status = Verified\<rparr>,
                    PanSave (fromSlot w + of_nat i) \<lparr>HeaderHash = HeaderHash p, Status = Verified\<rparr>,
                    RealmSave (fromSlot w + of_nat i)] @ after
    \<and> vanguardStore (replay (before @
          [VanSave (fromSlot w + of_nat i) \<lparr>HeaderHash = HeaderHash v, Status = Verified\<rparr>,
           PanSave (fromSlot w + of_nat i) \<lparr>HeaderHash = HeaderHash p, Status = Verified\<rparr>,
           RealmSave (fromSlot w + of_nat i)]) d) (fromSlot w + of_nat i)
        = Some \<lparr>HeaderHash = HeaderHash v, Status = Verified\<rparr>
    \<and> pandoraStore (replay (before @
          [VanSave (fromSlot w + of_nat i) \<lparr>HeaderHash = HeaderHash v, Status = Verified\<rparr>,
           PanSave (fromSlot w + of_nat i) \<lparr>HeaderHash = HeaderHash p, Status = Verified\<rparr>,
           RealmSave (fromSlot w + of_nat i)]) d) (fromSlot w + of_nat i)
        = Some \<lparr>HeaderHash = HeaderHash p, Status = Verified\<rparr>
    \<and> realm (replay (before @
          [VanSave (fromSlot w + of_nat i) \<lparr>HeaderHash = HeaderHash v, Status = Verified\<rparr>,
           PanSave (fromSlot w + of_nat i) \<lparr>HeaderHash = HeaderHash p, Status = Verified\<rparr>,
           RealmSave (fromSlot w + of_nat i)]) d) = fromSlot w + of_nat i"
proof -
  define s where "s = fromSlot w + of_nat i"
  define V where "V = VanSave s \<lparr>HeaderHash = HeaderHash v, Status = Verified\<rparr>"
  define P where "P = PanSave s \<lparr>HeaderHash = HeaderHash p, Status = Verified\<rparr>"
  define L where "L = atIndex i d w"
  define L' where "L' = atIndex (Suc i) d w"
  obtain before where before: "db L = replay before d"
    unfolding L_def using atIndex_replay by blast
  have fL: "faults (db L) = noFaults" using before assms(1) by (simp add: faults_replay)
  have eL: "\<not> chainErr (errs L)" unfolding L_def using assms(1) by (rule atIndex_noFaults)
  have "L' = snd (verifySlot s (Some v) (Some p) L)"
    unfolding L'_def L_def s_def using atIndex_Suc [OF assms(2,3), of d] eL assms(4,5)
    by (simp add: L_def)
  then have dL': "db L' = replay (before @ [V, P, RealmSave s]) d"
    using fL before by (simp add: verifySlot_paired noFaults_def replay_replay V_def P_def)
  have eL': "\<not> chainErr (errs L')" unfolding L'_def using assms(1) by (rule atIndex_noFaults)
  have "afterVerification d w = verifyLoop (fromSlot w) (pandoraHashes w) (Suc i)
          (drop (Suc i) (vanguardHashes w)) L'"
    using afterVerification_from [of "Suc i" w d] assms(2,3) eL' by (simp add: L'_def)
  then obtain c1 where c1: "db (afterVerification d w) = replay c1 (db L')"
    using verifyLoop_replay by metis
  obtain c2 where c2: "db (snd (handlePreparedWork rangeOrder d w))
      = replay c2 (db (afterVerification d w))"
    using handlePreparedWork_replay by blast
  have "db (snd (handlePreparedWork rangeOrder d w))
      = replay (before @ [V, P, RealmSave s] @ (c1 @ c2)) d"
    using c2 c1 dL' by (simp add: replay_replay)
  then have n: "newCalls d (db (snd (handlePreparedWork rangeOrder d w)))
      = before @ [V, P, RealmSave s] @ (c1 @ c2)"
    by (simp add: newCalls_replay)
  have f: "faults (replay before d) = noFaults" using assms(1) by (simp add: faults_replay)
  have st: "vanguardStore (replay (before @ [V, P, RealmSave s]) d) s
        = Some \<lparr>HeaderHash = HeaderHash v, Status = Verified\<rparr>"
    "pandoraStore (replay (before @ [V, P, RealmSave s]) d) s
        = Some \<lparr>HeaderHash = HeaderHash p, Status = Verified\<rparr>"
    "realm (replay (before @ [V, P, RealmSave s]) d) = s"
    using f
    by (simp_all add: replay_append replay_Cons replay_Nil vanguardStore_perform
        pandoraStore_perform realm_perform perform_faults perform_calls noFaults_def V_def P_def)
  from n st show ?thesis
    unfolding V_def P_def s_def by (intro exI [of _ before] exI [of _ "c1 @ c2"] conjI)
qed

theorem failed_chain_write_stops_the_pass:
  assumes "i < length (vanguardHashes w)" and "i < length (pandoraHashes w)"
    and "length (vanguardHashes w) \<le> 2 ^ 64"
    and "vanguardHashes w ! i = Some v" and "pandoraHashes w ! i = Some p"
    and "s = fromSlot w + of_nat i"
    and "V = \<lparr>HeaderHash = HeaderHash v, Status = Verified\<rparr>"
    and "P = \<lparr>HeaderHash = HeaderHash p, Status = Verified\<rparr>"
    and "before = db (atIndex i d w)"
    and "final = db (snd (handlePreparedWork rangeOrder d w))"
    and "\<not> chainErr (errs (atIndex i d w))"
    and "verr = faults d (calls before) (VanSave s V)"
    and "perr = faults d (calls before @ [VanSave s V]) (PanSave s P)"
    and "verr \<noteq> None \<or> perr \<noteq> None"
  shows "fst (handlePreparedWork rangeOrder d w)
           = SendsErrors \<lparr>vanguardErr = verr, pandoraErr = perr,
                          realmErr = realmErr (errs (atIndex i d w))\<rparr>
       \<and> newCalls before final = [VanSave s V, PanSave s P]
       \<and> vanguardStore final
           = (if verr = None then (vanguardStore before)(s \<mapsto> V) else vanguardStore before)
       \<and> pandoraStore final
           = (if perr = None then (pandoraStore before)(s \<mapsto> P) else pandoraStore before)
       \<and> realm final = realm before
       \<and> (\<forall>j<i. \<forall>vj pj. vanguardHashes w ! j = Some vj \<and> pandoraHashes w ! j = Some pj \<longrightarrow>
             vanguardStore final (fromSlot w + of_nat j)
               = Some \<lparr>HeaderHash = HeaderHash vj, Status = Verified\<rparr>
           \<and> pandoraStore final (fromSlot w + of_nat j)
               = Some \<lparr>HeaderHash = HeaderHash pj, Status = Verified\<rparr>)
       \<and> ((\<forall>log t. faults d log (RealmSave t) = None) \<longrightarrow>
             (\<forall>j<i. paired w j \<and> (\<forall>k. j < k \<and> k < i \<longrightarrow> \<not> paired w k) \<longrightarrow>
                realm final = fromSlot w + of_nat j)
           \<and> ((\<forall>j<i. \<not> paired w j) \<longrightarrow> realm final = realm d))"
proof -
  define L where "L = atIndex i d w"
  define E where "E = \<lparr>vanguardErr = verr, pandoraErr = perr, realmErr = realmErr (errs L)\<rparr>"
  define L' where "L' = L\<lparr>db := replay [VanSave s V, PanSave s P] (db L), errs := E\<rparr>"
  have bL: "before = db L" using assms(9) by (simp add: L_def)
  have fL: "faults (db L) = faults d" unfolding L_def by (rule atIndex_faults)
  have i64: "i < 2 ^ 64" using assms(1,3) by simp
  have vs: "verifySlot s (Some v) (Some p) L = (True, L')"
    using assms(12,13,14) unfolding L'_def E_def
    by (simp add: verifySlot_paired fL bL assms(7,8))
  have "atIndex (Suc i) d w = L'"
    using atIndex_Suc [OF assms(1,2), of d] assms(4,5,11) vs by (simp add: L_def assms(6))
  moreover have ce: "chainErr (errs L')" using assms(14) by (simp add: L'_def E_def chainErr_def)
  ultimately have av: "afterVerification d w = L'"
    using afterVerification_from [of "Suc i" w d] assms(1,2) by simp
  have "anyErr (errs L')" using assms(14) by (auto simp: L'_def E_def anyErr_def)
  then have hp: "handlePreparedWork rangeOrder d w = (SendsErrors E, L')"
    by (simp add: handlePreparedWork_unfold av) (simp add: L'_def)
  have fin: "final = replay [VanSave s V, PanSave s P] before"
    using assms(10) hp by (simp add: L'_def bL)
  have a: "fst (handlePreparedWork rangeOrder d w)
           = SendsErrors \<lparr>vanguardErr = verr, pandoraErr = perr,
                          realmErr = realmErr (errs (atIndex i d w))\<rparr>"
    using hp by (simp add: E_def L_def)
  have b: "newCalls before final = [VanSave s V, PanSave s P]"
    unfolding fin by (rule newCalls_replay)
  have fb: "faults before = faults d" using fL bL by simp
  have c: "vanguardStore final
           = (if verr = None then (vanguardStore before)(s \<mapsto> V) else vanguardStore before)"
    unfolding fin using assms(12)
    by (simp add: replay_Cons replay_Nil vanguardStore_perform perform_faults perform_calls fb)
  have d': "pandoraStore final
           = (if perr = None then (pandoraStore before)(s \<mapsto> P) else pandoraStore before)"
    unfolding fin using assms(13)
    by (simp add: replay_Cons replay_Nil pandoraStore_perform perform_faults perform_calls fb)
  have e: "realm final = realm before"
    unfolding fin
    by (simp add: replay_Cons replay_Nil realm_perform)
  have f: "\<forall>j<i. \<forall>vj pj. vanguardHashes w ! j = Some vj \<and> pandoraHashes w ! j = Some pj \<longrightarrow>
             vanguardStore final (fromSlot w + of_nat j)
               = Some \<lparr>HeaderHash = HeaderHash vj, Status = Verified\<rparr>
           \<and> pandoraStore final (fromSlot w + of_nat j)
               = Some \<lparr>HeaderHash = HeaderHash pj, Status = Verified\<rparr>"
  proof (intro allI impI)
    fix j vj pj assume j: "j < i"
      and r: "vanguardHashes w ! j = Some vj \<and> pandoraHashes w ! j = Some pj"
    have "i \<le> length (vanguardHashes w)" "i \<le> length (pandoraHashes w)" "i \<le> 2 ^ 64"
      using assms(1,2) i64 by simp_all
    from atIndex_verified [OF this assms(11) j] r
    have st: "vanguardStore before (fromSlot w + of_nat j)
               = Some \<lparr>HeaderHash = HeaderHash vj, Status = Verified\<rparr>"
        "pandoraStore before (fromSlot w + of_nat j)
               = Some \<lparr>HeaderHash = HeaderHash pj, Status = Verified\<rparr>"
      by (simp_all add: assms(9))
    have "j < 2 ^ 64" using j i64 by simp
    from slot_inj [OF this i64, of "fromSlot w"] j
    have ne: "fromSlot w + of_nat j \<noteq> s" unfolding assms(6) by blast
    show "vanguardStore final (fromSlot w + of_nat j)
               = Some \<lparr>HeaderHash = HeaderHash vj, Status = Verified\<rparr>
           \<and> pandoraStore final (fromSlot w + of_nat j)
               = Some \<lparr>HeaderHash = HeaderHash pj, Status = Verified\<rparr>"
      using st ne by (simp add: c d')
  qed
  have g: "(\<forall>log t. faults d log (RealmSave t) = None) \<longrightarrow>
             (\<forall>j<i. paired w j \<and> (\<forall>k. j < k \<and> k < i \<longrightarrow> \<not> paired w k) \<longrightarrow>
                realm final = fromSlot w + of_nat j)
           \<and> ((\<forall>j<i. \<not> paired w j) \<longrightarrow> realm final = realm d)"
  proof (intro impI conjI allI)
    assume nf: "\<forall>log t. faults d log (RealmSave t) = None"
    have le: "i \<le> length (vanguardHashes w)" "i \<le> length (pandoraHashes w)"
      using assms(1,2) by simp_all
    {
      fix j assume j: "j < i"
        and pj: "paired w j \<and> (\<forall>k. j < k \<and> k < i \<longrightarrow> \<not> paired w k)"
      from pj have p1: "paired w j" and p2: "\<forall>k. j < k \<and> k < i \<longrightarrow> \<not> paired w k" by simp_all
      from atIndex_realm_last [OF le assms(11) nf j p1 p2]
      show "realm final = fromSlot w + of_nat j" by (simp add: e assms(9))
    }
    {
      assume "\<forall>j<i. \<not> paired w j"
      from atIndex_unpaired_prefix [OF le this, of d]
      show "realm final = realm d" by (simp add: e assms(9))
    }
  qed
  from a b c d' e f g show ?thesis by (intro conjI)
qed

end
